theory Spec2Isabelle
  imports Complex_Main
begin

section \<open>The chat server of apps/api/src/websocket.ts\<close>

text \<open>
  The theory embeds the class \<open>ChatServer\<close>: its three fields, the callbacks that
  \<open>setupWebSocketServer\<close> registers for every connection, and the private methods they
  call. Everything the class does beyond updating its fields is made explicit in a
  record \<open>world\<close>: the frames handed to \<open>ws.send\<close>, the \<open>readyState\<close> of every socket,
  and the readings of \<open>Date.now()\<close> and \<open>Math.random()\<close>.
\<close>

subsection \<open>JavaScript strings and values\<close>

text \<open>
  A string is a list of code units, restricted to the range U+0000 .. U+00FF, which
  is what the type \<open>char\<close> holds. On that range \<open>trim\<close>, \<open>toLowerCase\<close> and
  \<open>JSON.stringify\<close> are as ECMAScript defines them.
\<close>

definition isWhiteSpace :: "char \<Rightarrow> bool" where
  "isWhiteSpace c = ((of_char c :: nat) \<in> {9, 10, 11, 12, 13, 32, 160})"

definition trim :: "string \<Rightarrow> string" where
  "trim s = rev (dropWhile isWhiteSpace (rev (dropWhile isWhiteSpace s)))"

definition lowerChar :: "char \<Rightarrow> char" where
  "lowerChar c =
     (let n = (of_char c :: nat)
      in if (65 \<le> n \<and> n \<le> 90) \<or> (192 \<le> n \<and> n \<le> 222 \<and> n \<noteq> 215)
         then char_of (n + 32) else c)"

definition toLowerCase :: "string \<Rightarrow> string" where
  "toLowerCase s = map lowerChar s"

text \<open>The decimal rendering of a number in a template literal.\<close>

definition digit :: "nat \<Rightarrow> char" where
  "digit d = char_of (48 + d)"

fun dec :: "nat \<Rightarrow> string" where
  "dec n = (if n < 10 then [digit n] else dec (n div 10) @ [digit (n mod 10)])"

declare dec.simps [simp del]

text \<open>Reading a decimal rendering back, to see that \<open>dec\<close> loses nothing.\<close>

definition undec :: "string \<Rightarrow> nat" where
  "undec s = foldl (\<lambda>a c. 10 * a + (of_char c - 48)) 0 s"

text \<open>\<open>JSON.stringify\<close> of a string, and of the array of \<open>{id, username}\<close> objects.\<close>

definition hexDigit :: "nat \<Rightarrow> char" where
  "hexDigit d = (if d < 10 then char_of (48 + d) else char_of (87 + d))"

definition quoteChar :: "char \<Rightarrow> string" where
  "quoteChar c =
     (let n = (of_char c :: nat)
      in if n = 34 then [CHR 0x5C, CHR 0x22]
         else if n = 92 then [CHR 0x5C, CHR 0x5C]
         else if n = 8 then [CHR 0x5C, CHR ''b'']
         else if n = 12 then [CHR 0x5C, CHR ''f'']
         else if n = 10 then [CHR 0x5C, CHR ''n'']
         else if n = 13 then [CHR 0x5C, CHR ''r'']
         else if n = 9 then [CHR 0x5C, CHR ''t'']
         else if n < 32 then [CHR 0x5C, CHR ''u'', CHR ''0'', CHR ''0'',
                              hexDigit (n div 16), hexDigit (n mod 16)]
         else [c])"

definition quoteJSONString :: "string \<Rightarrow> string" where
  "quoteJSONString s = [CHR 0x22] @ concat (map quoteChar s) @ [CHR 0x22]"

fun joinWith :: "string \<Rightarrow> string list \<Rightarrow> string" where
  "joinWith sep [] = []"
| "joinWith sep [x] = x"
| "joinWith sep (x # y # ys) = x @ sep @ joinWith sep (y # ys)"

text \<open>
  A value as \<open>JSON.parse\<close> returns it, with \<open>undefined\<close> for a property that is not
  there. A number matters to the code only through its truthiness.
\<close>

datatype jsval =
    JUndefined
  | JNull
  | JBool bool
  | JNum real
  | JStr string
  | JArr "jsval list"
  | JObj "(string \<times> jsval) list"

fun truthy :: "jsval \<Rightarrow> bool" where
  "truthy JUndefined = False"
| "truthy JNull = False"
| "truthy (JBool b) = b"
| "truthy (JNum x) = (x \<noteq> 0)"
| "truthy (JStr s) = (s \<noteq> [])"
| "truthy (JArr _) = True"
| "truthy (JObj _) = True"

text \<open>
  Reading one of the properties \<open>type\<close>, \<open>username\<close>, \<open>content\<close>: an own property of a
  parsed object, \<open>undefined\<close> on any other value (no prototype has these names).
  \<open>JObj\<close> lists the properties of the object after parsing, one entry per key.
  Reading a property of \<open>null\<close> or \<open>undefined\<close> throws; the caller handles that case.
\<close>

fun getProp :: "jsval \<Rightarrow> string \<Rightarrow> jsval" where
  "getProp (JObj kvs) k = (case map_of kvs k of Some v \<Rightarrow> v | None \<Rightarrow> JUndefined)"
| "getProp _ k = JUndefined"

subsection \<open>The data of the class\<close>

text \<open>
  A socket object is its identity. The fields \<open>id\<close> and \<open>type\<close> of \<open>ChatMessage\<close> and
  \<open>id\<close>, \<open>username\<close> of \<open>User\<close> are named \<open>mid\<close>, \<open>mtype\<close>, \<open>uid\<close>, \<open>uname\<close>.
\<close>

type_synonym ws = nat

datatype ready_state = CONNECTING | OPEN | CLOSING | CLOSED

datatype msg_type = Tmessage | Tuser_joined | Tuser_left | Tuser_list

record ChatMessage =
  mid :: string
  mtype :: msg_type
  content :: string
  username :: string
  timestamp :: nat
  userId :: "string option"

record User =
  uid :: string
  uname :: string
  ws :: ws

text \<open>
  A JavaScript \<open>Map\<close> keeps its entries in insertion order: \<open>set\<close> on a key that is
  there replaces the value in place, on a new key it appends; \<open>forEach\<close> and
  \<open>values\<close> go through the entries in that order.
\<close>

fun Map_set :: "'k \<Rightarrow> 'v \<Rightarrow> ('k \<times> 'v) list \<Rightarrow> ('k \<times> 'v) list" where
  "Map_set k v [] = [(k, v)]"
| "Map_set k v ((k', v') # es) =
     (if k' = k then (k, v) # es else (k', v') # Map_set k v es)"

definition Map_get :: "('k \<times> 'v) list \<Rightarrow> 'k \<Rightarrow> 'v option" where
  "Map_get es k = map_of es k"

definition Map_delete :: "'k \<Rightarrow> ('k \<times> 'v) list \<Rightarrow> ('k \<times> 'v) list" where
  "Map_delete k es = filter (\<lambda>e. fst e \<noteq> k) es"

definition Map_values :: "('k \<times> 'v) list \<Rightarrow> 'v list" where
  "Map_values es = map snd es"

text \<open>
  The state: the fields \<open>users\<close>, \<open>messageHistory\<close>, \<open>nextUserId\<close> of the class, and
  around them \<open>listeners\<close> (the closures of the connection callback: which \<open>userId\<close>
  the handlers of a socket carry), \<open>wire\<close> (every call of \<open>ws.send\<close> in order, with
  the message before \<open>JSON.stringify\<close>), the \<open>readyState\<close> of every socket, and the
  clock and the random source as the sequence of their readings with the number of
  readings taken so far. \<open>mathRandom\<close> gives the characters that
  \<open>Math.random().toString(36).substr(2, 9)\<close> returns. \<open>nextUserId\<close> is a natural number:
  the JavaScript number is exact below \<open>2 ^ 53\<close>.
\<close>

record world =
  users :: "(string \<times> User) list"
  messageHistory :: "ChatMessage list"
  nextUserId :: nat
  listeners :: "(ws \<times> string) list"
  wire :: "(ws \<times> ChatMessage) list"
  readyState :: "ws \<Rightarrow> ready_state"
  dateNow :: "nat \<Rightarrow> nat"
  clockReads :: nat
  mathRandom :: "nat \<Rightarrow> string"
  randomReads :: nat

definition Date_now :: "world \<Rightarrow> nat \<times> world" where
  "Date_now w = (dateNow w (clockReads w), w\<lparr>clockReads := Suc (clockReads w)\<rparr>)"

definition Math_random36 :: "world \<Rightarrow> string \<times> world" where
  "Math_random36 w = (mathRandom w (randomReads w), w\<lparr>randomReads := Suc (randomReads w)\<rparr>)"

subsection \<open>The private methods\<close>

definition generateMessageId :: "world \<Rightarrow> string \<times> world" where
  "generateMessageId w =
     (let (t, w1) = Date_now w;
          (r, w2) = Math_random36 w1
      in (''msg_'' @ dec t @ ''_'' @ r, w2))"

text \<open>
  The object literal of a notice of the server, which the source writes out five
  times: a new id, the given type and content, \<open>username: "System"\<close>, the time and
  \<open>userId: "system"\<close>.
\<close>

definition systemMessage :: "msg_type \<Rightarrow> string \<Rightarrow> world \<Rightarrow> ChatMessage \<times> world" where
  "systemMessage ty c w =
     (let (i, w1) = generateMessageId w;
          (t, w2) = Date_now w1
      in (\<lparr>mid = i, mtype = ty, content = c, username = ''System'',
           timestamp = t, userId = Some ''system''\<rparr>, w2))"

definition sendMessage :: "ws \<Rightarrow> ChatMessage \<Rightarrow> world \<Rightarrow> world" where
  "sendMessage s message w =
     (if readyState w s = OPEN then w\<lparr>wire := wire w @ [(s, message)]\<rparr> else w)"

definition sendError :: "ws \<Rightarrow> string \<Rightarrow> world \<Rightarrow> world" where
  "sendError s error w =
     (let (m, w1) = systemMessage Tmessage (''Error: '' @ error) w
      in sendMessage s m w1)"

definition stringifyUsers :: "User list \<Rightarrow> string" where
  "stringifyUsers us =
     ''['' @ joinWith '',''
       (map (\<lambda>u. ''{'' @ quoteJSONString ''id'' @ '':'' @ quoteJSONString (uid u) @ '','' @
                  quoteJSONString ''username'' @ '':'' @ quoteJSONString (uname u) @ ''}'') us)
     @ '']''"

definition sendUserList :: "ws \<Rightarrow> world \<Rightarrow> world" where
  "sendUserList s w =
     (let (userListMessage, w1) =
            systemMessage Tuser_list (stringifyUsers (Map_values (users w))) w
      in sendMessage s userListMessage w1)"

definition sendMessageHistory :: "ws \<Rightarrow> world \<Rightarrow> world" where
  "sendMessageHistory s w = fold (\<lambda>message. sendMessage s message) (messageHistory w) w"

definition broadcastMessage :: "ChatMessage \<Rightarrow> world \<Rightarrow> world" where
  "broadcastMessage message w =
     fold (\<lambda>user. sendMessage (ws user) message) (Map_values (users w)) w"

definition broadcastUserList :: "world \<Rightarrow> world" where
  "broadcastUserList w = fold (\<lambda>user. sendUserList (ws user)) (Map_values (users w)) w"

definition getConnectedUsersCount :: "world \<Rightarrow> nat" where
  "getConnectedUsersCount w = length (users w)"

subsection \<open>The handlers\<close>

text \<open>
  A handler either returns or throws a \<open>TypeError\<close> (calling \<open>trim\<close> on a value that
  has none, reading a property of \<open>null\<close>); both carry the state reached.
\<close>

datatype completion = Normal world | Throw world

definition handleUserJoin :: "ws \<Rightarrow> string \<Rightarrow> jsval \<Rightarrow> world \<Rightarrow> completion" where
  "handleUserJoin s userId' username' w =
     (if \<not> truthy username' then Normal (sendError s ''Username is required'' w)
      else case username' of
        JStr name \<Rightarrow>
          if length (trim name) = 0 then Normal (sendError s ''Username is required'' w)
          else
            let trimmedUsername = trim name;
                existingUser = find (\<lambda>user. toLowerCase (uname user) = toLowerCase trimmedUsername)
                                 (Map_values (users w))
            in if existingUser \<noteq> None then Normal (sendError s ''Username already taken'' w)
               else
                 let w1 = w\<lparr>users := Map_set userId'
                              \<lparr>uid = userId', uname = trimmedUsername, ws = s\<rparr> (users w)\<rparr>;
                     (joinMessage, w2) =
                        systemMessage Tuser_joined (trimmedUsername @ '' joined the chat'') w1
                 in Normal (sendMessageHistory s (broadcastUserList (broadcastMessage joinMessage w2)))
      | _ \<Rightarrow> Throw w)"

definition handleChatMessage :: "string \<Rightarrow> jsval \<Rightarrow> world \<Rightarrow> completion" where
  "handleChatMessage userId' content' w =
     (case Map_get (users w) userId' of
        None \<Rightarrow> Normal w
      | Some user \<Rightarrow>
          if \<not> truthy content' then Normal w
          else case content' of
            JStr c \<Rightarrow>
              if length (trim c) = 0 then Normal w
              else
                let (i, w1) = generateMessageId w;
                    (t, w2) = Date_now w1;
                    message = \<lparr>mid = i, mtype = Tmessage, content = trim c,
                               username = uname user, timestamp = t, userId = Some (uid user)\<rparr>;
                    pushed = messageHistory w2 @ [message];
                    w3 = w2\<lparr>messageHistory := (if 100 < length pushed then tl pushed else pushed)\<rparr>
                in Normal (broadcastMessage message w3)
          | _ \<Rightarrow> Throw w)"

definition handleUserDisconnect :: "string \<Rightarrow> world \<Rightarrow> world" where
  "handleUserDisconnect userId' w =
     (case Map_get (users w) userId' of
        None \<Rightarrow> w
      | Some user \<Rightarrow>
          let w1 = w\<lparr>users := Map_delete userId' (users w)\<rparr>;
              (leaveMessage, w2) = systemMessage Tuser_left (uname user @ '' left the chat'') w1
          in broadcastUserList (broadcastMessage leaveMessage w2))"

definition handleMessage :: "ws \<Rightarrow> string \<Rightarrow> jsval \<Rightarrow> world \<Rightarrow> completion" where
  "handleMessage s userId' message w =
     (if message = JNull \<or> message = JUndefined then Throw w
      else if getProp message ''type'' = JStr ''join''
        then handleUserJoin s userId' (getProp message ''username'') w
      else if getProp message ''type'' = JStr ''message''
        then handleChatMessage userId' (getProp message ''content'') w
      else Normal (sendError s ''Unknown message type'' w))"

subsection \<open>The connection callback and the events of a socket\<close>

text \<open>
  \<open>onMessage\<close> is the listener of the \<open>message\<close> event. Its argument is the result of
  \<open>JSON.parse(data.toString())\<close>, \<open>None\<close> when that throws.
\<close>

definition onMessage :: "ws \<Rightarrow> string \<Rightarrow> jsval option \<Rightarrow> world \<Rightarrow> world" where
  "onMessage s userId' data w =
     (case data of
        None \<Rightarrow> sendError s ''Invalid message format'' w
      | Some message \<Rightarrow>
          (case handleMessage s userId' message w of
             Normal w' \<Rightarrow> w'
           | Throw w' \<Rightarrow> sendError s ''Invalid message format'' w'))"

definition onConnection :: "ws \<Rightarrow> world \<Rightarrow> world" where
  "onConnection s w =
     (let userId' = ''user_'' @ dec (nextUserId w);
          w1 = w\<lparr>nextUserId := nextUserId w + 1, listeners := listeners w @ [(s, userId')]\<rparr>;
          (welcome, w2) = systemMessage Tuser_joined ''Welcome to the chat!'' w1
      in sendUserList s (sendMessage s welcome w2))"

text \<open>
  What happens to the server: a client connects (the library creates a new socket
  object, open when the callback runs), a socket delivers a frame, closes or
  reports an error, or the state of a socket changes underneath.
\<close>

datatype event =
    Connection
  | Message ws "jsval option"
  | Close ws
  | Error ws
  | ReadyState ws ready_state

fun step :: "event \<Rightarrow> world \<Rightarrow> world" where
  "step Connection w =
     (let s = length (listeners w)
      in onConnection s (w\<lparr>readyState := (readyState w)(s := OPEN)\<rparr>))"
| "step (Message s data) w =
     (case map_of (listeners w) s of
        None \<Rightarrow> w
      | Some userId' \<Rightarrow> onMessage s userId' data w)"
| "step (Close s) w =
     (case map_of (listeners w) s of
        None \<Rightarrow> w
      | Some userId' \<Rightarrow> handleUserDisconnect userId' w)"
| "step (Error s) w =
     (case map_of (listeners w) s of
        None \<Rightarrow> w
      | Some userId' \<Rightarrow> handleUserDisconnect userId' w)"
| "step (ReadyState s r) w = w\<lparr>readyState := (readyState w)(s := r)\<rparr>"

definition run :: "event list \<Rightarrow> world \<Rightarrow> world" where
  "run evs w = fold step evs w"

text \<open>The server when the constructor returns, with a clock and a random source.\<close>

definition initial :: "(nat \<Rightarrow> nat) \<Rightarrow> (nat \<Rightarrow> string) \<Rightarrow> world" where
  "initial clock rnd =
     \<lparr>users = [], messageHistory = [], nextUserId = 1, listeners = [], wire = [],
      readyState = (\<lambda>_. CLOSED), dateNow = clock, clockReads = 0,
      mathRandom = rnd, randomReads = 0\<rparr>"


subsection \<open>Notions the properties are stated with\<close>

fun stateOf :: "completion \<Rightarrow> world" where
  "stateOf (Normal w) = w"
| "stateOf (Throw w) = w"

text \<open>A notice of the server of a given type and content.\<close>

definition isNotice :: "msg_type \<Rightarrow> string \<Rightarrow> ChatMessage \<Rightarrow> bool" where
  "isNotice ty c m =
     (mtype m = ty \<and> content m = c \<and> username m = ''System'' \<and> userId m = Some ''system'')"

text \<open>
  The joined sessions whose socket is open, in the order of \<open>users\<close>: the sessions a
  broadcast reaches, since \<open>sendMessage\<close> sends on an open socket only.
\<close>

definition openUsers :: "world \<Rightarrow> User list" where
  "openUsers w = filter (\<lambda>u. readyState w (ws u) = OPEN) (Map_values (users w))"

text \<open>
  A \<open>username\<close> or \<open>content\<close> with nothing in it: a string that is empty once trimmed,
  or a value that is not a string and falsy (\<open>undefined\<close> when the property is
  missing, \<open>null\<close>, \<open>false\<close>, \<open>0\<close>).
\<close>

fun blank :: "jsval \<Rightarrow> bool" where
  "blank (JStr n) = (trim n = [])"
| "blank v = (\<not> truthy v)"

text \<open>A name that a joined session holds already, compared without case.\<close>

fun nameTaken :: "world \<Rightarrow> jsval \<Rightarrow> bool" where
  "nameTaken w (JStr n) =
     (\<exists>x \<in> set (Map_values (users w)). toLowerCase (uname x) = toLowerCase (trim n))"
| "nameTaken w v = False"

text \<open>
  Two facts about \<open>users\<close> that hold whenever the server runs (shown below for every
  state it reaches): an entry is filed under the id it carries, and no two joined
  sessions share a socket.
\<close>

definition keyed :: "world \<Rightarrow> bool" where
  "keyed w = (\<forall>e \<in> set (users w). uid (snd e) = fst e)"

definition socketsDistinct :: "world \<Rightarrow> bool" where
  "socketsDistinct w = distinct (map ws (Map_values (users w)))"

text \<open>The frames sent between a state and a later one.\<close>

definition sent :: "world \<Rightarrow> world \<Rightarrow> (ws \<times> ChatMessage) list" where
  "sent w w' = drop (length (wire w)) (wire w')"

text \<open>
  A run of calls of \<open>handleChatMessage\<close>, each with the id of the session and the
  content of the frame; the call is accepted when the session is joined and the
  content is a string that is not blank. \<open>newMessage\<close> is the message an accepted
  call builds in a state, \<open>chatEvents\<close> the messages built along a run, in order.
\<close>

fun chats :: "(string \<times> jsval) list \<Rightarrow> world \<Rightarrow> world" where
  "chats [] w = w"
| "chats ((k, c) # ops) w = chats ops (stateOf (handleChatMessage k c w))"

fun accepted :: "world \<Rightarrow> string \<Rightarrow> jsval \<Rightarrow> bool" where
  "accepted w k (JStr t) = (Map_get (users w) k \<noteq> None \<and> trim t \<noteq> [])"
| "accepted w k v = False"

definition newMessage :: "User \<Rightarrow> string \<Rightarrow> world \<Rightarrow> ChatMessage" where
  "newMessage user t w =
     (let (i, w1) = generateMessageId w;
          (ts, w2) = Date_now w1
      in \<lparr>mid = i, mtype = Tmessage, content = trim t,
          username = uname user, timestamp = ts, userId = Some (uid user)\<rparr>)"

fun chatEvents :: "(string \<times> jsval) list \<Rightarrow> world \<Rightarrow> ChatMessage list" where
  "chatEvents [] w = []"
| "chatEvents ((k, c) # ops) w =
     (case (Map_get (users w) k, c) of
        (Some user, JStr t) \<Rightarrow> if trim t \<noteq> [] then [newMessage user t w] else []
      | _ \<Rightarrow> [])
     @ chatEvents ops (stateOf (handleChatMessage k c w))"

fun sentText :: "jsval \<Rightarrow> string" where
  "sentText (JStr t) = trim t"
| "sentText v = []"

text \<open>
  The session an event comes from (the id its handlers carry), the name a frame of
  type \<open>join\<close> asks for, whether that join is accepted, and the events that end a
  session.
\<close>

fun origin :: "world \<Rightarrow> event \<Rightarrow> string option" where
  "origin w (Message s d) = map_of (listeners w) s"
| "origin w (Close s) = map_of (listeners w) s"
| "origin w (Error s) = map_of (listeners w) s"
| "origin w Connection = None"
| "origin w (ReadyState s r) = None"

fun joinRequest :: "event \<Rightarrow> jsval option" where
  "joinRequest (Message s (Some msg)) =
     (if getProp msg ''type'' = JStr ''join'' then Some (getProp msg ''username'') else None)"
| "joinRequest e = None"

fun joinAccepted :: "world \<Rightarrow> event \<Rightarrow> bool" where
  "joinAccepted w e =
     (case joinRequest e of
        Some (JStr n) \<Rightarrow> trim n \<noteq> [] \<and> \<not> nameTaken w (JStr n)
      | _ \<Rightarrow> False)"

fun isDisconnect :: "event \<Rightarrow> bool" where
  "isDisconnect (Close s) = True"
| "isDisconnect (Error s) = True"
| "isDisconnect e = False"

text \<open>The names of the joined sessions, lower-cased, in the order of \<open>users\<close>.\<close>

definition lowerNames :: "world \<Rightarrow> string list" where
  "lowerNames w = map (\<lambda>u. toLowerCase (uname u)) (Map_values (users w))"

text \<open>
  What the connections so far have left behind: the i-th one got socket \<open>i\<close> and the
  id \<open>user_\<close> followed by \<open>i + 1\<close>, and the counter stands one further. And how
  \<open>users\<close> is filed: one entry per key, each under the id it carries and with the
  socket whose handlers carry that id.
\<close>

definition registered :: "world \<Rightarrow> bool" where
  "registered w =
     (1 \<le> nextUserId w
      \<and> listeners w = map (\<lambda>i. (i, ''user_'' @ dec (Suc i))) [0..<nextUserId w - 1])"

definition filed :: "world \<Rightarrow> bool" where
  "filed w =
     (distinct (map fst (users w))
      \<and> (\<forall>e \<in> set (users w).
            uid (snd e) = fst e \<and> map_of (listeners w) (ws (snd e)) = Some (fst e)))"

text \<open>
  Rooms to try the properties on: alice has joined on socket 0 and socket 1 is
  connected; then bob has joined on socket 1 as well.
\<close>

definition aliceRoom :: world where
  "aliceRoom =
     \<lparr>users = [(''user_1'', \<lparr>uid = ''user_1'', uname = ''alice'', ws = 0\<rparr>)],
      messageHistory = [], nextUserId = 3,
      listeners = [(0, ''user_1''), (1, ''user_2'')], wire = [],
      readyState = (\<lambda>s. if s < 2 then OPEN else CLOSED),
      dateNow = (\<lambda>n. n), clockReads = 0, mathRandom = (\<lambda>n. ''r''), randomReads = 0\<rparr>"

definition aliceBobRoom :: world where
  "aliceBobRoom =
     \<lparr>users = [(''user_1'', \<lparr>uid = ''user_1'', uname = ''alice'', ws = 0\<rparr>),
               (''user_2'', \<lparr>uid = ''user_2'', uname = ''bob'', ws = 1\<rparr>)],
      messageHistory = [], nextUserId = 3,
      listeners = [(0, ''user_1''), (1, ''user_2'')], wire = [],
      readyState = (\<lambda>s. if s < 2 then OPEN else CLOSED),
      dateNow = (\<lambda>n. n), clockReads = 0, mathRandom = (\<lambda>n. ''r''), randomReads = 0\<rparr>"

section \<open>Properties\<close>

subsection \<open>What the private methods change\<close>

lemma systemMessage_fields:
  "mtype (fst (systemMessage ty c w)) = ty"
  "content (fst (systemMessage ty c w)) = c"
  "username (fst (systemMessage ty c w)) = ''System''"
  "userId (fst (systemMessage ty c w)) = Some ''system''"
  by (simp_all add: systemMessage_def generateMessageId_def Date_now_def Math_random36_def)

lemma systemMessage_frame:
  "users (snd (systemMessage ty c w)) = users w"
  "messageHistory (snd (systemMessage ty c w)) = messageHistory w"
  "nextUserId (snd (systemMessage ty c w)) = nextUserId w"
  "listeners (snd (systemMessage ty c w)) = listeners w"
  "wire (snd (systemMessage ty c w)) = wire w"
  "readyState (snd (systemMessage ty c w)) = readyState w"
  by (simp_all add: systemMessage_def generateMessageId_def Date_now_def Math_random36_def)

lemma sendMessage_frame:
  "users (sendMessage s m w) = users w"
  "messageHistory (sendMessage s m w) = messageHistory w"
  "nextUserId (sendMessage s m w) = nextUserId w"
  "listeners (sendMessage s m w) = listeners w"
  "readyState (sendMessage s m w) = readyState w"
  by (simp_all add: sendMessage_def)

lemma sendMessage_wire:
  "wire (sendMessage s m w) = wire w @ (if readyState w s = OPEN then [(s, m)] else [])"
  by (simp add: sendMessage_def)

lemma sendError_frame:
  "users (sendError s e w) = users w"
  "messageHistory (sendError s e w) = messageHistory w"
  "nextUserId (sendError s e w) = nextUserId w"
  "listeners (sendError s e w) = listeners w"
  "readyState (sendError s e w) = readyState w"
  by (simp_all add: sendError_def split_beta sendMessage_frame systemMessage_frame)

lemma sendError_wire:
  "wire (sendError s e w) =
     wire w @ (if readyState w s = OPEN
               then [(s, fst (systemMessage Tmessage (''Error: '' @ e) w))] else [])"
  by (simp add: sendError_def split_beta sendMessage_wire systemMessage_frame)

lemma sendUserList_frame:
  "users (sendUserList s w) = users w"
  "messageHistory (sendUserList s w) = messageHistory w"
  "nextUserId (sendUserList s w) = nextUserId w"
  "listeners (sendUserList s w) = listeners w"
  "readyState (sendUserList s w) = readyState w"
  by (simp_all add: sendUserList_def split_beta sendMessage_frame systemMessage_frame)

lemma sendUserList_wire:
  "wire (sendUserList s w) =
     wire w @ (if readyState w s = OPEN
               then [(s, fst (systemMessage Tuser_list (stringifyUsers (Map_values (users w))) w))]
               else [])"
  by (simp add: sendUserList_def split_beta sendMessage_wire systemMessage_frame)

lemma fold_sendMessage_frame:
  "users (fold (\<lambda>x. sendMessage (f x) (g x)) xs w) = users w"
  "messageHistory (fold (\<lambda>x. sendMessage (f x) (g x)) xs w) = messageHistory w"
  "nextUserId (fold (\<lambda>x. sendMessage (f x) (g x)) xs w) = nextUserId w"
  "listeners (fold (\<lambda>x. sendMessage (f x) (g x)) xs w) = listeners w"
  "readyState (fold (\<lambda>x. sendMessage (f x) (g x)) xs w) = readyState w"
  by (induction xs arbitrary: w; simp add: sendMessage_frame)+

lemma fold_sendMessage_wire:
  "wire (fold (\<lambda>x. sendMessage (f x) (g x)) xs w) =
     wire w @ map (\<lambda>x. (f x, g x)) (filter (\<lambda>x. readyState w (f x) = OPEN) xs)"
  by (induction xs arbitrary: w) (simp_all add: sendMessage_frame sendMessage_wire)

lemma fold_sendMessage_eq:
  "fold (\<lambda>x. sendMessage (f x) (g x)) xs w =
     w\<lparr>wire := wire w @ map (\<lambda>x. (f x, g x)) (filter (\<lambda>x. readyState w (f x) = OPEN) xs)\<rparr>"
  by (induction xs arbitrary: w) (simp_all add: sendMessage_def)

lemma broadcastMessage_eq:
  "broadcastMessage m w =
     w\<lparr>wire := wire w @ map (\<lambda>u. (ws u, m))
                        (filter (\<lambda>u. readyState w (ws u) = OPEN) (Map_values (users w)))\<rparr>"
  unfolding broadcastMessage_def by (rule fold_sendMessage_eq)

lemma sendMessageHistory_eq:
  "sendMessageHistory s w =
     w\<lparr>wire := wire w @ (if readyState w s = OPEN then map (Pair s) (messageHistory w) else [])\<rparr>"
  unfolding sendMessageHistory_def 
  using fold_sendMessage_eq [of "\<lambda>_. s" "\<lambda>m. m" "messageHistory w" w]
  by (simp add: Pair_def)

lemma systemMessage_isNotice: "isNotice ty c (fst (systemMessage ty c w))"
  by (simp add: isNotice_def systemMessage_fields)

lemma fold_sendUserList_frame:
  "users (fold (\<lambda>u. sendUserList (ws u)) vs w) = users w"
  "messageHistory (fold (\<lambda>u. sendUserList (ws u)) vs w) = messageHistory w"
  "nextUserId (fold (\<lambda>u. sendUserList (ws u)) vs w) = nextUserId w"
  "listeners (fold (\<lambda>u. sendUserList (ws u)) vs w) = listeners w"
  "readyState (fold (\<lambda>u. sendUserList (ws u)) vs w) = readyState w"
  by (induction vs arbitrary: w; simp add: sendUserList_frame)+

lemma fold_sendUserList_wire:
  "\<exists>R. wire (fold (\<lambda>u. sendUserList (ws u)) vs w) = wire w @ R
       \<and> map fst R = map ws (filter (\<lambda>u. readyState w (ws u) = OPEN) vs)
       \<and> (\<forall>m \<in> snd ` set R. isNotice Tuser_list (stringifyUsers (Map_values (users w))) m)"
proof (induction vs arbitrary: w)
  case Nil
  show ?case by simp
next
  case (Cons v vs)
  let ?w1 = "sendUserList (ws v) w"
  let ?m = "fst (systemMessage Tuser_list (stringifyUsers (Map_values (users w))) w)"
  from Cons.IH [of ?w1] obtain R where
    R: "wire (fold (\<lambda>u. sendUserList (ws u)) vs ?w1) = wire ?w1 @ R"
       "map fst R = map ws (filter (\<lambda>u. readyState ?w1 (ws u) = OPEN) vs)"
       "\<forall>m \<in> snd ` set R. isNotice Tuser_list (stringifyUsers (Map_values (users ?w1))) m"
    by blast
  let ?R = "(if readyState w (ws v) = OPEN then [(ws v, ?m)] else []) @ R"
  have "wire (fold (\<lambda>u. sendUserList (ws u)) (v # vs) w) = wire w @ ?R"
    using R(1) by (simp add: sendUserList_wire)
  moreover have "map fst ?R = map ws (filter (\<lambda>u. readyState w (ws u) = OPEN) (v # vs))"
    using R(2) by (simp add: sendUserList_frame)
  moreover have "\<forall>m \<in> snd ` set ?R. isNotice Tuser_list (stringifyUsers (Map_values (users w))) m"
    using R(3) by (auto simp: sendUserList_frame systemMessage_isNotice)
  ultimately show ?case by blast
qed

lemma broadcastUserList_frame:
  "users (broadcastUserList w) = users w"
  "messageHistory (broadcastUserList w) = messageHistory w"
  "nextUserId (broadcastUserList w) = nextUserId w"
  "listeners (broadcastUserList w) = listeners w"
  "readyState (broadcastUserList w) = readyState w"
  by (simp_all add: broadcastUserList_def fold_sendUserList_frame)

lemma broadcastUserList_wire:
  "\<exists>R. wire (broadcastUserList w) = wire w @ R
       \<and> map fst R = map ws (openUsers w)
       \<and> (\<forall>m \<in> snd ` set R. isNotice Tuser_list (stringifyUsers (Map_values (users w))) m)"
  unfolding broadcastUserList_def openUsers_def by (rule fold_sendUserList_wire)

subsection \<open>Rejected joins\<close>

lemma trim_Nil: "trim [] = []"
  by (simp add: trim_def)

lemma handleUserJoin_required:
  "\<not> truthy u \<or> (\<exists>n. u = JStr n \<and> trim n = []) \<Longrightarrow>
   handleUserJoin s k u w = Normal (sendError s ''Username is required'' w)"
  by (auto simp: handleUserJoin_def)

lemma handleUserJoin_taken:
  assumes "trim n \<noteq> []"
    and "\<exists>x \<in> set (Map_values (users w)). toLowerCase (uname x) = toLowerCase (trim n)"
  shows "handleUserJoin s k (JStr n) w = Normal (sendError s ''Username already taken'' w)"
proof -
  have "n \<noteq> []" using assms(1) by (auto simp: trim_Nil)
  moreover have "find (\<lambda>user. toLowerCase (uname user) = toLowerCase (trim n))
                   (Map_values (users w)) \<noteq> None"
    using assms(2) by (auto simp: find_None_iff simp del: not_None_eq)
  ultimately show ?thesis
    using assms(1) by (simp add: handleUserJoin_def Let_def del: not_None_eq)
qed

lemma handleUserJoin_accepted:
  assumes "trim n \<noteq> []"
    and "\<forall>x \<in> set (Map_values (users w)). toLowerCase (uname x) \<noteq> toLowerCase (trim n)"
  shows "handleUserJoin s k (JStr n) w =
     (let w1 = w\<lparr>users := Map_set k \<lparr>uid = k, uname = trim n, ws = s\<rparr> (users w)\<rparr>;
          p = systemMessage Tuser_joined (trim n @ '' joined the chat'') w1
      in Normal (sendMessageHistory s (broadcastUserList (broadcastMessage (fst p) (snd p)))))"
proof -
  have "n \<noteq> []" using assms(1) by (auto simp: trim_Nil)
  moreover have "find (\<lambda>user. toLowerCase (uname user) = toLowerCase (trim n))
                   (Map_values (users w)) = None"
    using assms(2) by (simp add: find_None_iff)
  ultimately show ?thesis
    using assms(1) by (simp add: handleUserJoin_def Let_def split_beta)
qed

lemma handleUserJoin_throws:
  "truthy u \<Longrightarrow> \<forall>n. u \<noteq> JStr n \<Longrightarrow> handleUserJoin s k u w = Throw w"
  by (cases u) (auto simp: handleUserJoin_def)

lemma sendError_notice:
  "\<exists>m. isNotice Tmessage (''Error: '' @ e) m
     \<and> users (sendError s e w) = users w
     \<and> messageHistory (sendError s e w) = messageHistory w
     \<and> nextUserId (sendError s e w) = nextUserId w
     \<and> wire (sendError s e w) = wire w @ (if readyState w s = OPEN then [(s, m)] else [])"
  using systemMessage_isNotice [of Tmessage "''Error: '' @ e" w]
  by (auto simp: sendError_frame sendError_wire)

text \<open>
  Claim C3. A join whose name is blank, or is held already by a joined session when
  compared without case, returns normally and leaves \<open>users\<close>, \<open>messageHistory\<close> and
  \<open>nextUserId\<close> as they were. The only frame it can send is one error notice of
  type \<open>message\<close>, and it goes to the socket the join came from (when that socket is
  open); nothing is sent to any other socket.
\<close>

theorem join_rejected_no_effect:
  assumes "blank u \<or> nameTaken w u"
  shows "\<exists>w' m. handleUserJoin s k u w = Normal w'
           \<and> users w' = users w \<and> messageHistory w' = messageHistory w
           \<and> nextUserId w' = nextUserId w
           \<and> isNotice Tmessage (if blank u then ''Error: Username is required''
                                else ''Error: Username already taken'') m
           \<and> wire w' = wire w @ (if readyState w s = OPEN then [(s, m)] else [])"
proof (cases "blank u")
  case True
  then have "\<not> truthy u \<or> (\<exists>n. u = JStr n \<and> trim n = [])"
    by (cases u) auto
  then have "handleUserJoin s k u w = Normal (sendError s ''Username is required'' w)"
    by (rule handleUserJoin_required)
  with True sendError_notice [of "''Username is required''" s w] show ?thesis
    by auto
next
  case False
  with assms obtain n where n: "u = JStr n" "nameTaken w (JStr n)" "trim n \<noteq> []"
    by (cases u) auto
  then have "handleUserJoin s k u w = Normal (sendError s ''Username already taken'' w)"
    by (simp add: handleUserJoin_taken)
  with False sendError_notice [of "''Username already taken''" s w] show ?thesis
    by auto
qed

text \<open>
  Claim C10. The search for a holder of the name goes through every entry of
  \<open>users\<close>, the one of the requesting session included: a joined session asking for
  its own name again, in any case, is told that the name is taken, and nothing
  changes.
\<close>

theorem rejoin_own_name_rejected:
  assumes "Map_get (users w) k = Some u"
    and "trim n \<noteq> []"
    and "toLowerCase (trim n) = toLowerCase (uname u)"
  shows "\<exists>w' m. handleUserJoin s k (JStr n) w = Normal w'
           \<and> users w' = users w \<and> messageHistory w' = messageHistory w
           \<and> nextUserId w' = nextUserId w
           \<and> isNotice Tmessage ''Error: Username already taken'' m
           \<and> wire w' = wire w @ (if readyState w s = OPEN then [(s, m)] else [])"
proof -
  have "u \<in> set (Map_values (users w))"
    using assms(1) by (auto simp: Map_get_def Map_values_def dest: map_of_SomeD intro: rev_image_eqI)
  then have "\<exists>x \<in> set (Map_values (users w)). toLowerCase (uname x) = toLowerCase (trim n)"
    using assms(3) by auto
  then have "handleUserJoin s k (JStr n) w = Normal (sendError s ''Username already taken'' w)"
    using assms(2) by (simp add: handleUserJoin_taken)
  with sendError_notice [of "''Username already taken''" s w] show ?thesis
    by auto
qed

theorem join_rejected_no_effect_witness:
  "(blank (JStr '' Alice '') \<or> nameTaken aliceRoom (JStr '' Alice ''))
   \<and> (\<exists>w' m. handleUserJoin 1 ''user_2'' (JStr '' Alice '') aliceRoom = Normal w'
           \<and> users w' = users aliceRoom \<and> messageHistory w' = messageHistory aliceRoom
           \<and> nextUserId w' = nextUserId aliceRoom
           \<and> isNotice Tmessage (if blank (JStr '' Alice '') then ''Error: Username is required''
                                else ''Error: Username already taken'') m
           \<and> wire w' = wire aliceRoom @ (if readyState aliceRoom 1 = OPEN then [(1, m)] else []))"
proof -
  have h: "blank (JStr '' Alice '') \<or> nameTaken aliceRoom (JStr '' Alice '')"
    by code_simp
  from h join_rejected_no_effect [OF h, of 1 "''user_2''"] show ?thesis
    by blast
qed

theorem rejoin_own_name_rejected_witness:
  "Map_get (users aliceRoom) ''user_1'' = Some \<lparr>uid = ''user_1'', uname = ''alice'', ws = 0\<rparr>
   \<and> trim ''ALICE  '' \<noteq> []
   \<and> toLowerCase (trim ''ALICE  '') = toLowerCase (uname \<lparr>uid = ''user_1'', uname = ''alice'', ws = 0\<rparr>)
   \<and> (\<exists>w' m. handleUserJoin 0 ''user_1'' (JStr ''ALICE  '') aliceRoom = Normal w'
           \<and> users w' = users aliceRoom \<and> messageHistory w' = messageHistory aliceRoom
           \<and> nextUserId w' = nextUserId aliceRoom
           \<and> isNotice Tmessage ''Error: Username already taken'' m
           \<and> wire w' = wire aliceRoom @ (if readyState aliceRoom 0 = OPEN then [(0, m)] else []))"
proof -
  have h1: "Map_get (users aliceRoom) ''user_1'' = Some \<lparr>uid = ''user_1'', uname = ''alice'', ws = 0\<rparr>"
    by (simp add: aliceRoom_def Map_get_def)
  have h2: "trim ''ALICE  '' \<noteq> []"
    by code_simp
  have h3: "toLowerCase (trim ''ALICE  '') = toLowerCase (uname \<lparr>uid = ''user_1'', uname = ''alice'', ws = 0\<rparr>)"
    by code_simp
  from h1 h2 h3 rejoin_own_name_rejected [OF h1 h2 h3, of 0] show ?thesis
    by blast
qed

subsection \<open>Accepted joins\<close>

lemma Map_set_entry: "(k, v) \<in> set (Map_set k v es)"
  by (induction es) auto

lemma Map_set_member: "v \<in> set (Map_values (Map_set k v es))"
  using Map_set_entry [of k v es] by (auto simp: Map_values_def intro: rev_image_eqI)

lemma Map_get_member: "Map_get es k = Some v \<Longrightarrow> v \<in> set (Map_values es)"
  by (auto simp: Map_get_def Map_values_def dest: map_of_SomeD intro: rev_image_eqI)

lemma Map_get_delete: "Map_get (Map_delete k es) k = None"
  by (induction es) (auto simp: Map_get_def Map_delete_def)

lemma Map_delete_keys: "k \<notin> fst ` set (Map_delete k es)"
  by (auto simp: Map_delete_def)

text \<open>
  Claim C5. A join with a name that is not blank and not taken returns normally with
  the session entered in \<open>users\<close> under its trimmed name. The frames it sends are, in
  this order: (a) one \<open>user_joined\<close> notice, the same for everyone, to every joined
  session with an open socket, the new session among the joined ones; (b) to each
  of the same sessions a \<open>user_list\<close> notice whose content is the roster after the
  join; (c) to the socket of the new session alone the whole \<open>messageHistory\<close>, oldest
  first, one frame per entry. A socket that is not open is skipped by \<open>sendMessage\<close>.
\<close>

theorem join_accepted_broadcasts:
  assumes "\<not> blank (JStr n)" and "\<not> nameTaken w (JStr n)"
  shows "\<exists>w' j R. handleUserJoin s k (JStr n) w = Normal w'
           \<and> users w' = Map_set k \<lparr>uid = k, uname = trim n, ws = s\<rparr> (users w)
           \<and> \<lparr>uid = k, uname = trim n, ws = s\<rparr> \<in> set (Map_values (users w'))
           \<and> messageHistory w' = messageHistory w
           \<and> readyState w' = readyState w
           \<and> isNotice Tuser_joined (trim n @ '' joined the chat'') j
           \<and> wire w' = wire w @ map (\<lambda>u. (ws u, j)) (openUsers w') @ R
                          @ (if readyState w s = OPEN then map (Pair s) (messageHistory w) else [])
           \<and> map fst R = map ws (openUsers w')
           \<and> (\<forall>m \<in> snd ` set R. isNotice Tuser_list (stringifyUsers (Map_values (users w'))) m)"
proof -
  let ?us = "Map_set k \<lparr>uid = k, uname = trim n, ws = s\<rparr> (users w)"
  let ?w1 = "w\<lparr>users := ?us\<rparr>"
  let ?p = "systemMessage Tuser_joined (trim n @ '' joined the chat'') ?w1"
  let ?j = "fst ?p"
  let ?w3 = "broadcastMessage ?j (snd ?p)"
  let ?w4 = "broadcastUserList ?w3"
  let ?w5 = "sendMessageHistory s ?w4"
  have run: "handleUserJoin s k (JStr n) w = Normal ?w5"
    using assms by (simp add: handleUserJoin_accepted Let_def)
  have w3: "users ?w3 = ?us" "messageHistory ?w3 = messageHistory w"
      "readyState ?w3 = readyState w"
      "wire ?w3 = wire w @ map (\<lambda>u. (ws u, ?j)) (filter (\<lambda>u. readyState w (ws u) = OPEN) (Map_values ?us))"
    by (simp_all add: broadcastMessage_eq systemMessage_frame)
  obtain R where R: "wire ?w4 = wire ?w3 @ R" "map fst R = map ws (openUsers ?w3)"
      "\<forall>m \<in> snd ` set R. isNotice Tuser_list (stringifyUsers (Map_values (users ?w3))) m"
    using broadcastUserList_wire [of ?w3] by blast
  have w4: "users ?w4 = ?us" "messageHistory ?w4 = messageHistory w" "readyState ?w4 = readyState w"
    by (simp_all add: broadcastUserList_frame w3)
  have w5: "users ?w5 = ?us" "messageHistory ?w5 = messageHistory w" "readyState ?w5 = readyState w"
      "wire ?w5 = wire ?w4 @ (if readyState w s = OPEN then map (Pair s) (messageHistory w) else [])"
    by (simp_all add: sendMessageHistory_eq w4)
  have ou: "openUsers ?w5 = filter (\<lambda>u. readyState w (ws u) = OPEN) (Map_values ?us)"
      "openUsers ?w3 = filter (\<lambda>u. readyState w (ws u) = OPEN) (Map_values ?us)"
    by (simp_all add: openUsers_def w5 w3)
  have "wire ?w5 = wire w @ map (\<lambda>u. (ws u, ?j)) (openUsers ?w5) @ R
                    @ (if readyState w s = OPEN then map (Pair s) (messageHistory w) else [])"
    by (simp add: w5(4) R(1) w3(4) ou)
  moreover have "map fst R = map ws (openUsers ?w5)"
    by (simp add: R(2) ou)
  moreover have "\<forall>m \<in> snd ` set R. isNotice Tuser_list (stringifyUsers (Map_values (users ?w5))) m"
    using R(3) by (simp add: w3(1) w5(1))
  moreover have "\<lparr>uid = k, uname = trim n, ws = s\<rparr> \<in> set (Map_values (users ?w5))"
    by (simp add: w5(1) Map_set_member)
  moreover have "isNotice Tuser_joined (trim n @ '' joined the chat'') ?j"
    by (rule systemMessage_isNotice)
  ultimately show ?thesis
    using run w5(1,2,3) by blast
qed

theorem join_accepted_broadcasts_witness:
  "\<not> blank (JStr '' bob '') \<and> \<not> nameTaken aliceRoom (JStr '' bob '')
   \<and> (\<exists>w' j R. handleUserJoin 1 ''user_2'' (JStr '' bob '') aliceRoom = Normal w'
           \<and> users w' = Map_set ''user_2'' \<lparr>uid = ''user_2'', uname = trim '' bob '', ws = 1\<rparr> (users aliceRoom)
           \<and> \<lparr>uid = ''user_2'', uname = trim '' bob '', ws = 1\<rparr> \<in> set (Map_values (users w'))
           \<and> messageHistory w' = messageHistory aliceRoom
           \<and> readyState w' = readyState aliceRoom
           \<and> isNotice Tuser_joined (trim '' bob '' @ '' joined the chat'') j
           \<and> wire w' = wire aliceRoom @ map (\<lambda>u. (ws u, j)) (openUsers w') @ R
                          @ (if readyState aliceRoom 1 = OPEN then map (Pair 1) (messageHistory aliceRoom) else [])
           \<and> map fst R = map ws (openUsers w')
           \<and> (\<forall>m \<in> snd ` set R. isNotice Tuser_list (stringifyUsers (Map_values (users w'))) m))"
proof -
  have h1: "\<not> blank (JStr '' bob '')"
    by code_simp
  have h2: "\<not> nameTaken aliceRoom (JStr '' bob '')"
    by code_simp
  from h1 h2 join_accepted_broadcasts [OF h1 h2, of 1 "''user_2''"] show ?thesis
    by blast
qed

subsection \<open>Chat messages\<close>

lemma handleChatMessage_dropped:
  "Map_get (users w) k = None \<or> blank c \<Longrightarrow> handleChatMessage k c w = Normal w"
  by (cases c) (auto simp: handleChatMessage_def trim_Nil split: option.splits)

lemma handleChatMessage_accepted:
  assumes "Map_get (users w) k = Some u" and "trim t \<noteq> []"
  shows "handleChatMessage k (JStr t) w =
     (let p = generateMessageId w; q = Date_now (snd p);
          message = \<lparr>mid = fst p, mtype = Tmessage, content = trim t,
                     username = uname u, timestamp = fst q, userId = Some (uid u)\<rparr>;
          pushed = messageHistory w @ [message]
      in Normal (broadcastMessage message
           ((snd q)\<lparr>messageHistory := (if 100 < length pushed then tl pushed else pushed)\<rparr>)))"
proof -
  have "t \<noteq> []" using assms(2) by (auto simp: trim_Nil)
  then show ?thesis
    using assms by (simp add: handleChatMessage_def Let_def split_beta generateMessageId_def
        Date_now_def Math_random36_def)
qed

lemma generateMessageId_frame:
  "users (snd (generateMessageId w)) = users w"
  "messageHistory (snd (generateMessageId w)) = messageHistory w"
  "nextUserId (snd (generateMessageId w)) = nextUserId w"
  "listeners (snd (generateMessageId w)) = listeners w"
  "wire (snd (generateMessageId w)) = wire w"
  "readyState (snd (generateMessageId w)) = readyState w"
  by (simp_all add: generateMessageId_def Date_now_def Math_random36_def)

lemma Date_now_frame:
  "users (snd (Date_now w)) = users w"
  "messageHistory (snd (Date_now w)) = messageHistory w"
  "nextUserId (snd (Date_now w)) = nextUserId w"
  "listeners (snd (Date_now w)) = listeners w"
  "wire (snd (Date_now w)) = wire w"
  "readyState (snd (Date_now w)) = readyState w"
  by (simp_all add: Date_now_def)

text \<open>
  Claim C6. An inbound frame of type \<open>message\<close> from a session that is not joined, or
  with a blank content, leaves the whole state as it is: no frame is sent, no field
  changes. From a joined session with a content that is not blank, the message
  built (type \<open>message\<close>, the trimmed content, the name and id of the sender) is
  stored last in the history and sent to every joined session with an open
  socket, and \<open>users\<close> does not change.
\<close>

theorem chat_message_handling:
  assumes "getProp msg ''type'' = JStr ''message''"
  shows "(Map_get (users w) k = None \<or> blank (getProp msg ''content'')
            \<longrightarrow> onMessage s k (Some msg) w = w)
       \<and> (\<forall>u t. Map_get (users w) k = Some u \<and> getProp msg ''content'' = JStr t \<and> trim t \<noteq> []
            \<longrightarrow> (\<exists>m. mtype m = Tmessage \<and> content m = trim t
                    \<and> username m = uname u \<and> userId m = Some (uid u)
                    \<and> users (onMessage s k (Some msg) w) = users w
                    \<and> last (messageHistory (onMessage s k (Some msg) w)) = m
                    \<and> wire (onMessage s k (Some msg) w)
                        = wire w @ map (\<lambda>v. (ws v, m)) (openUsers w)))"
proof -
  have "msg \<noteq> JNull" "msg \<noteq> JUndefined"
    using assms by auto
  then have disp: "handleMessage s k msg w = handleChatMessage k (getProp msg ''content'') w"
    using assms by (simp add: handleMessage_def)
  have dropped: "onMessage s k (Some msg) w = w"
    if "Map_get (users w) k = None \<or> blank (getProp msg ''content'')"
    using that by (simp add: onMessage_def disp handleChatMessage_dropped)
  have accepted: "\<exists>m. mtype m = Tmessage \<and> content m = trim t
                    \<and> username m = uname u \<and> userId m = Some (uid u)
                    \<and> users (onMessage s k (Some msg) w) = users w
                    \<and> last (messageHistory (onMessage s k (Some msg) w)) = m
                    \<and> wire (onMessage s k (Some msg) w)
                        = wire w @ map (\<lambda>v. (ws v, m)) (openUsers w)"
    if u: "Map_get (users w) k = Some u" and c: "getProp msg ''content'' = JStr t"
      and t: "trim t \<noteq> []" for u t
  proof -
    let ?p = "generateMessageId w"
    let ?q = "Date_now (snd ?p)"
    let ?m = "\<lparr>mid = fst ?p, mtype = Tmessage, content = trim t,
               username = uname u, timestamp = fst ?q, userId = Some (uid u)\<rparr>"
    let ?pushed = "messageHistory w @ [?m]"
    let ?h = "if 100 < length ?pushed then tl ?pushed else ?pushed"
    let ?w' = "broadcastMessage ?m ((snd ?q)\<lparr>messageHistory := ?h\<rparr>)"
    have "handleChatMessage k (getProp msg ''content'') w = Normal ?w'"
      using handleChatMessage_accepted [OF u t] by (simp add: c Let_def)
    then have res: "onMessage s k (Some msg) w = ?w'"
      by (simp add: onMessage_def disp)
    have "last ?h = ?m"
      by (cases "messageHistory w") auto
    then have "last (messageHistory ?w') = ?m"
      by (simp add: broadcastMessage_eq)
    moreover have "users ?w' = users w"
      by (simp add: broadcastMessage_eq Date_now_frame generateMessageId_frame)
    moreover have "wire ?w' = wire w @ map (\<lambda>v. (ws v, ?m)) (openUsers w)"
      by (simp add: broadcastMessage_eq openUsers_def Date_now_frame generateMessageId_frame)
    ultimately show ?thesis
      unfolding res by (intro exI [of _ ?m]) simp
  qed
  from dropped accepted show ?thesis
    by blast
qed

theorem chat_message_handling_witness:
  "getProp (JObj [(''type'', JStr ''message''), (''content'', JStr '' hi '')]) ''type'' = JStr ''message''
   \<and> Map_get (users aliceRoom) ''user_1'' = Some \<lparr>uid = ''user_1'', uname = ''alice'', ws = 0\<rparr>
   \<and> getProp (JObj [(''type'', JStr ''message''), (''content'', JStr '' hi '')]) ''content'' = JStr '' hi ''
   \<and> trim '' hi '' \<noteq> []
   \<and> Map_get (users aliceRoom) ''user_2'' = None
   \<and> onMessage 1 ''user_2'' (Some (JObj [(''type'', JStr ''message''), (''content'', JStr '' hi '')])) aliceRoom
       = aliceRoom
   \<and> (\<exists>m. mtype m = Tmessage \<and> content m = trim '' hi '' \<and> username m = ''alice''
          \<and> userId m = Some ''user_1''
          \<and> wire (onMessage 0 ''user_1''
                    (Some (JObj [(''type'', JStr ''message''), (''content'', JStr '' hi '')])) aliceRoom)
              = wire aliceRoom @ map (\<lambda>v. (ws v, m)) (openUsers aliceRoom))"
proof -
  let ?msg = "JObj [(''type'', JStr ''message''), (''content'', JStr '' hi '')]"
  have h: "getProp ?msg ''type'' = JStr ''message''"
    by simp
  have u: "Map_get (users aliceRoom) ''user_1'' = Some \<lparr>uid = ''user_1'', uname = ''alice'', ws = 0\<rparr>"
    by (simp add: aliceRoom_def Map_get_def)
  have c: "getProp ?msg ''content'' = JStr '' hi ''"
    by simp
  have t: "trim '' hi '' \<noteq> []"
    by code_simp
  have n: "Map_get (users aliceRoom) ''user_2'' = None"
    by (simp add: aliceRoom_def Map_get_def)
  from chat_message_handling [OF h, of aliceRoom "''user_2''" 1] n
  have 1: "onMessage 1 ''user_2'' (Some ?msg) aliceRoom = aliceRoom"
    by blast
  from chat_message_handling [OF h, of aliceRoom "''user_1''" 0] u c t
  have 2: "\<exists>m. mtype m = Tmessage \<and> content m = trim '' hi '' \<and> username m = ''alice''
          \<and> userId m = Some ''user_1''
          \<and> wire (onMessage 0 ''user_1'' (Some ?msg) aliceRoom)
              = wire aliceRoom @ map (\<lambda>v. (ws v, m)) (openUsers aliceRoom)"
    by fastforce
  from h u c t n 1 2 show ?thesis
    by blast
qed

subsection \<open>Disconnects\<close>

lemma frames_of_socket:
  "distinct (map fst R) \<Longrightarrow> a \<in> fst ` set R \<Longrightarrow>
   \<exists>r. filter (\<lambda>f. fst f = a) R = [(a, r)] \<and> (a, r) \<in> set R"
proof (induction R)
  case Nil
  then show ?case by simp
next
  case (Cons f R)
  show ?case
  proof (cases "fst f = a")
    case True
    with Cons.prems have "a \<notin> fst ` set R"
      by auto
    then have "filter (\<lambda>f. fst f = a) R = []"
      by (induction R) auto
    with True show ?thesis
      by (cases f) auto
  next
    case False
    with Cons show ?thesis by auto
  qed
qed

lemma handleUserDisconnect_absent:
  "Map_get (users w) k = None \<Longrightarrow> handleUserDisconnect k w = w"
  by (simp add: handleUserDisconnect_def)

lemma handleUserDisconnect_present:
  "Map_get (users w) k = Some u \<Longrightarrow>
   handleUserDisconnect k w =
     (let p = systemMessage Tuser_left (uname u @ '' left the chat'')
                (w\<lparr>users := Map_delete k (users w)\<rparr>)
      in broadcastUserList (broadcastMessage (fst p) (snd p)))"
  by (simp add: handleUserDisconnect_def Let_def split_beta)

lemma disconnect_frames:
  assumes "Map_get (users w) k = Some u"
  shows "\<exists>l R. users (handleUserDisconnect k w) = Map_delete k (users w)
           \<and> messageHistory (handleUserDisconnect k w) = messageHistory w
           \<and> readyState (handleUserDisconnect k w) = readyState w
           \<and> isNotice Tuser_left (uname u @ '' left the chat'') l
           \<and> wire (handleUserDisconnect k w)
               = wire w @ map (\<lambda>v. (ws v, l)) (openUsers (handleUserDisconnect k w)) @ R
           \<and> map fst R = map ws (openUsers (handleUserDisconnect k w))
           \<and> (\<forall>m \<in> snd ` set R.
                 isNotice Tuser_list (stringifyUsers (Map_values (Map_delete k (users w)))) m)"
proof -
  let ?p = "systemMessage Tuser_left (uname u @ '' left the chat'')
              (w\<lparr>users := Map_delete k (users w)\<rparr>)"
  let ?l = "fst ?p"
  let ?w3 = "broadcastMessage ?l (snd ?p)"
  let ?w4 = "broadcastUserList ?w3"
  have res: "handleUserDisconnect k w = ?w4"
    using assms by (simp add: handleUserDisconnect_present Let_def)
  have w3: "users ?w3 = Map_delete k (users w)" "messageHistory ?w3 = messageHistory w"
      "readyState ?w3 = readyState w"
      "wire ?w3 = wire w @ map (\<lambda>v. (ws v, ?l))
          (filter (\<lambda>v. readyState w (ws v) = OPEN) (Map_values (Map_delete k (users w))))"
    by (simp_all add: broadcastMessage_eq systemMessage_frame)
  obtain R where R: "wire ?w4 = wire ?w3 @ R" "map fst R = map ws (openUsers ?w3)"
      "\<forall>m \<in> snd ` set R. isNotice Tuser_list (stringifyUsers (Map_values (users ?w3))) m"
    using broadcastUserList_wire [of ?w3] by blast
  have w4: "users ?w4 = Map_delete k (users w)" "messageHistory ?w4 = messageHistory w"
      "readyState ?w4 = readyState w"
    by (simp_all add: broadcastUserList_frame w3)
  have ou: "openUsers ?w4 = filter (\<lambda>v. readyState w (ws v) = OPEN) (Map_values (Map_delete k (users w)))"
      "openUsers ?w3 = openUsers ?w4"
    by (simp_all add: openUsers_def w4 w3)
  have "wire ?w4 = wire w @ map (\<lambda>v. (ws v, ?l)) (openUsers ?w4) @ R"
    by (simp add: R(1) w3(4) ou)
  moreover have "map fst R = map ws (openUsers ?w4)"
    by (simp add: R(2) ou)
  moreover have "\<forall>m \<in> snd ` set R.
      isNotice Tuser_list (stringifyUsers (Map_values (Map_delete k (users w)))) m"
    using R(3) by (simp add: w3(1))
  moreover have "isNotice Tuser_left (uname u @ '' left the chat'') ?l"
    by (rule systemMessage_isNotice)
  ultimately show ?thesis
    unfolding res using w4 by blast
qed

lemma socketsDistinct_delete:
  "distinct (map ws (Map_values es)) \<Longrightarrow> distinct (map ws (Map_values (Map_delete k es)))"
  by (induction es) (auto simp: Map_values_def Map_delete_def)

text \<open>
  Claim C7. The disconnect of a session that never joined changes nothing and sends
  nothing. The disconnect of a joined session removes its entry; frames go to the
  remaining joined sessions with an open socket and to no one else, and each of
  them gets exactly two, in this order: the \<open>user_left\<close> notice and then a
  \<open>user_list\<close> notice whose content is the roster without the session that left.
\<close>

theorem disconnect_notifies:
  "(Map_get (users w) k = None \<longrightarrow> handleUserDisconnect k w = w)
   \<and> (\<forall>u. Map_get (users w) k = Some u \<longrightarrow>
        (\<exists>l. isNotice Tuser_left (uname u @ '' left the chat'') l
           \<and> users (handleUserDisconnect k w) = Map_delete k (users w)
           \<and> k \<notin> fst ` set (users (handleUserDisconnect k w))
           \<and> (keyed w \<longrightarrow> k \<notin> uid ` set (Map_values (users (handleUserDisconnect k w))))
           \<and> fst ` set (sent w (handleUserDisconnect k w))
                = ws ` set (openUsers (handleUserDisconnect k w))
           \<and> (socketsDistinct w \<longrightarrow>
                (\<forall>v \<in> set (openUsers (handleUserDisconnect k w)).
                   \<exists>r. isNotice Tuser_list
                          (stringifyUsers (Map_values (users (handleUserDisconnect k w)))) r
                     \<and> filter (\<lambda>f. fst f = ws v) (sent w (handleUserDisconnect k w))
                         = [(ws v, l), (ws v, r)]))))"
proof (intro conjI allI impI)
  assume "Map_get (users w) k = None"
  then show "handleUserDisconnect k w = w"
    by (rule handleUserDisconnect_absent)
next
  fix u
  assume u: "Map_get (users w) k = Some u"
  let ?w' = "handleUserDisconnect k w"
  from disconnect_frames [OF u] obtain l R where
    fr: "users ?w' = Map_delete k (users w)"
        "readyState ?w' = readyState w"
        "isNotice Tuser_left (uname u @ '' left the chat'') l"
        "wire ?w' = wire w @ map (\<lambda>v. (ws v, l)) (openUsers ?w') @ R"
        "map fst R = map ws (openUsers ?w')"
        "\<forall>m \<in> snd ` set R. isNotice Tuser_list (stringifyUsers (Map_values (Map_delete k (users w)))) m"
    by blast
  let ?L = "map (\<lambda>v. (ws v, l)) (openUsers ?w')"
  have sent: "sent w ?w' = ?L @ R"
    by (simp add: sent_def fr(4))
  have keys: "k \<notin> fst ` set (users ?w')"
    unfolding fr(1) by (rule Map_delete_keys)
  have ids: "k \<notin> uid ` set (Map_values (users ?w'))" if "keyed w"
    using that unfolding fr(1) by (auto simp: keyed_def Map_values_def Map_delete_def)
  have targets: "fst ` set (sent w ?w') = ws ` set (openUsers ?w')"
  proof -
    have "fst ` set R = set (map fst R)" by simp
    also have "\<dots> = ws ` set (openUsers ?w')" by (simp add: fr(5))
    finally show ?thesis by (auto simp: sent image_Un image_image)
  qed
  have order: "\<forall>v \<in> set (openUsers ?w').
         \<exists>r. isNotice Tuser_list (stringifyUsers (Map_values (users ?w'))) r
            \<and> filter (\<lambda>f. fst f = ws v) (sent w ?w') = [(ws v, l), (ws v, r)]"
    if sd: "socketsDistinct w"
  proof
    fix v
    assume v: "v \<in> set (openUsers ?w')"
    have "distinct (map ws (Map_values (users ?w')))"
      using sd unfolding fr(1) socketsDistinct_def by (rule socketsDistinct_delete)
    then have d: "distinct (map ws (openUsers ?w'))"
      unfolding openUsers_def by (rule distinct_map_filter)
    have dL: "distinct (map fst ?L)" and dR: "distinct (map fst R)"
      using d by (simp_all add: fr(5) comp_def)
    have inL: "ws v \<in> fst ` set ?L" and inR: "ws v \<in> fst ` set R"
    proof -
      show "ws v \<in> fst ` set ?L" using v by (auto simp: image_image)
      have "ws v \<in> set (map fst R)" using v by (simp add: fr(5))
      then show "ws v \<in> fst ` set R" by simp
    qed
    from frames_of_socket [OF dL inL] obtain x where
      x: "filter (\<lambda>f. fst f = ws v) ?L = [(ws v, x)]" "(ws v, x) \<in> set ?L"
      by blast
    then have xl: "x = l" by auto
    from frames_of_socket [OF dR inR] obtain r where
      r: "filter (\<lambda>f. fst f = ws v) R = [(ws v, r)]" "(ws v, r) \<in> set R"
      by blast
    then have "r \<in> snd ` set R" by force
    with fr(6) have "isNotice Tuser_list (stringifyUsers (Map_values (users ?w'))) r"
      unfolding fr(1) by blast
    moreover have "filter (\<lambda>f. fst f = ws v) (sent w ?w') = [(ws v, l), (ws v, r)]"
      by (simp add: sent x(1) r(1) xl)
    ultimately show "\<exists>r. isNotice Tuser_list (stringifyUsers (Map_values (users ?w'))) r
            \<and> filter (\<lambda>f. fst f = ws v) (sent w ?w') = [(ws v, l), (ws v, r)]"
      by blast
  qed
  from fr(1,3) keys ids targets order
  show "\<exists>l. isNotice Tuser_left (uname u @ '' left the chat'') l
           \<and> users ?w' = Map_delete k (users w)
           \<and> k \<notin> fst ` set (users ?w')
           \<and> (keyed w \<longrightarrow> k \<notin> uid ` set (Map_values (users ?w')))
           \<and> fst ` set (sent w ?w') = ws ` set (openUsers ?w')
           \<and> (socketsDistinct w \<longrightarrow>
                (\<forall>v \<in> set (openUsers ?w').
                   \<exists>r. isNotice Tuser_list (stringifyUsers (Map_values (users ?w'))) r
                     \<and> filter (\<lambda>f. fst f = ws v) (sent w ?w') = [(ws v, l), (ws v, r)]))"
    by blast
qed

theorem disconnect_notifies_witness:
  "Map_get (users aliceBobRoom) ''user_1'' = Some \<lparr>uid = ''user_1'', uname = ''alice'', ws = 0\<rparr>
   \<and> Map_get (users aliceBobRoom) ''user_9'' = None
   \<and> socketsDistinct aliceBobRoom
   \<and> \<lparr>uid = ''user_2'', uname = ''bob'', ws = 1\<rparr>
        \<in> set (openUsers (handleUserDisconnect ''user_1'' aliceBobRoom))
   \<and> handleUserDisconnect ''user_9'' aliceBobRoom = aliceBobRoom
   \<and> (\<exists>l r. isNotice Tuser_left ''alice left the chat'' l
         \<and> isNotice Tuser_list
              (stringifyUsers (Map_values (users (handleUserDisconnect ''user_1'' aliceBobRoom)))) r
         \<and> filter (\<lambda>f. fst f = 1) (sent aliceBobRoom (handleUserDisconnect ''user_1'' aliceBobRoom))
             = [(1, l), (1, r)])
   \<and> ''user_1'' \<notin> uid ` set (Map_values (users (handleUserDisconnect ''user_1'' aliceBobRoom)))"
proof -
  let ?alice = "\<lparr>uid = ''user_1'', uname = ''alice'', ws = 0\<rparr>"
  let ?bob = "\<lparr>uid = ''user_2'', uname = ''bob'', ws = 1\<rparr>"
  have a: "Map_get (users aliceBobRoom) ''user_1'' = Some ?alice"
    by (simp add: aliceBobRoom_def Map_get_def)
  have n: "Map_get (users aliceBobRoom) ''user_9'' = None"
    by (simp add: aliceBobRoom_def Map_get_def)
  have k: "keyed aliceBobRoom"
    by (simp add: keyed_def aliceBobRoom_def)
  have d: "socketsDistinct aliceBobRoom"
    by (simp add: socketsDistinct_def aliceBobRoom_def Map_values_def)
  have "users (handleUserDisconnect ''user_1'' aliceBobRoom)
          = Map_delete ''user_1'' (users aliceBobRoom)"
    using disconnect_notifies [of aliceBobRoom "''user_1''"] a by blast
  then have u: "users (handleUserDisconnect ''user_1'' aliceBobRoom) = [(''user_2'', ?bob)]"
    by (simp add: aliceBobRoom_def Map_delete_def)
  have rs: "readyState (handleUserDisconnect ''user_1'' aliceBobRoom) = readyState aliceBobRoom"
    using disconnect_frames [OF a] by blast
  have r: "readyState (handleUserDisconnect ''user_1'' aliceBobRoom) 1 = OPEN"
    unfolding rs by (simp add: aliceBobRoom_def)
  have b: "?bob \<in> set (openUsers (handleUserDisconnect ''user_1'' aliceBobRoom))"
    using r by (simp add: openUsers_def u Map_values_def)
  have 1: "handleUserDisconnect ''user_9'' aliceBobRoom = aliceBobRoom"
    using disconnect_notifies [of aliceBobRoom "''user_9''"] n by blast
  have 2: "\<exists>l r. isNotice Tuser_left ''alice left the chat'' l
         \<and> isNotice Tuser_list
              (stringifyUsers (Map_values (users (handleUserDisconnect ''user_1'' aliceBobRoom)))) r
         \<and> filter (\<lambda>f. fst f = 1) (sent aliceBobRoom (handleUserDisconnect ''user_1'' aliceBobRoom))
             = [(1, l), (1, r)]"
    using disconnect_notifies [of aliceBobRoom "''user_1''"] a d b by fastforce
  have 3: "''user_1'' \<notin> uid ` set (Map_values (users (handleUserDisconnect ''user_1'' aliceBobRoom)))"
    using disconnect_notifies [of aliceBobRoom "''user_1''"] a k by blast
  from a n d b 1 2 3 show ?thesis
    by blast
qed

text \<open>
  Claim C8. The first time the disconnect of a joined session is handled, its entry
  is removed and the notification goes out: the \<open>user_left\<close> notice and then a
  roster, one frame of each to every remaining joined session with an open socket.
  Handling the same disconnect a second time returns the state of the first time,
  as a whole: the second lookup finds no entry and nothing is sent. When the
  session had no entry the first time, the first time changes and sends nothing
  either.
\<close>

theorem disconnect_idempotent:
  "handleUserDisconnect k (handleUserDisconnect k w) = handleUserDisconnect k w
   \<and> Map_get (users (handleUserDisconnect k w)) k = None
   \<and> sent (handleUserDisconnect k w) (handleUserDisconnect k (handleUserDisconnect k w)) = []
   \<and> (Map_get (users w) k = None \<longrightarrow>
        handleUserDisconnect k w = w \<and> sent w (handleUserDisconnect k w) = [])
   \<and> (\<forall>u. Map_get (users w) k = Some u \<longrightarrow>
        (\<exists>l R. isNotice Tuser_left (uname u @ '' left the chat'') l
           \<and> users (handleUserDisconnect k w) = Map_delete k (users w)
           \<and> sent w (handleUserDisconnect k w)
               = map (\<lambda>v. (ws v, l)) (openUsers (handleUserDisconnect k w)) @ R
           \<and> map fst R = map ws (openUsers (handleUserDisconnect k w))
           \<and> (\<forall>m \<in> snd ` set R.
                 isNotice Tuser_list
                   (stringifyUsers (Map_values (users (handleUserDisconnect k w)))) m)
           \<and> length (sent w (handleUserDisconnect k w))
               = 2 * length (openUsers (handleUserDisconnect k w))))"
proof -
  have gone: "Map_get (users (handleUserDisconnect k w)) k = None"
  proof (cases "Map_get (users w) k")
    case None
    then show ?thesis by (simp add: handleUserDisconnect_absent)
  next
    case (Some u)
    from disconnect_frames [OF Some]
    have "users (handleUserDisconnect k w) = Map_delete k (users w)"
      by blast
    then show ?thesis by (simp add: Map_get_delete)
  qed
  then have twice: "handleUserDisconnect k (handleUserDisconnect k w) = handleUserDisconnect k w"
    by (rule handleUserDisconnect_absent)
  have first: "\<exists>l R. isNotice Tuser_left (uname u @ '' left the chat'') l
           \<and> users (handleUserDisconnect k w) = Map_delete k (users w)
           \<and> sent w (handleUserDisconnect k w)
               = map (\<lambda>v. (ws v, l)) (openUsers (handleUserDisconnect k w)) @ R
           \<and> map fst R = map ws (openUsers (handleUserDisconnect k w))
           \<and> (\<forall>m \<in> snd ` set R.
                 isNotice Tuser_list
                   (stringifyUsers (Map_values (users (handleUserDisconnect k w)))) m)
           \<and> length (sent w (handleUserDisconnect k w))
               = 2 * length (openUsers (handleUserDisconnect k w))"
    if u: "Map_get (users w) k = Some u" for u
  proof -
    let ?w' = "handleUserDisconnect k w"
    from disconnect_frames [OF u] obtain l R where
      fr: "users ?w' = Map_delete k (users w)"
          "isNotice Tuser_left (uname u @ '' left the chat'') l"
          "wire ?w' = wire w @ map (\<lambda>v. (ws v, l)) (openUsers ?w') @ R"
          "map fst R = map ws (openUsers ?w')"
          "\<forall>m \<in> snd ` set R.
             isNotice Tuser_list (stringifyUsers (Map_values (Map_delete k (users w)))) m"
      by blast
    have s: "sent w ?w' = map (\<lambda>v. (ws v, l)) (openUsers ?w') @ R"
      by (simp add: sent_def fr(3))
    have "length R = length (openUsers ?w')"
      using fr(4) by (metis length_map)
    then have n: "length (sent w ?w') = 2 * length (openUsers ?w')"
      by (simp add: s)
    from fr(5) have r: "\<forall>m \<in> snd ` set R.
        isNotice Tuser_list (stringifyUsers (Map_values (users ?w'))) m"
      by (simp only: fr(1))
    from fr(2) fr(1) s fr(4) r n show ?thesis
      by blast
  qed
  have none: "handleUserDisconnect k w = w \<and> sent w (handleUserDisconnect k w) = []"
    if "Map_get (users w) k = None"
    using that by (simp add: handleUserDisconnect_absent sent_def)
  have again: "sent (handleUserDisconnect k w) (handleUserDisconnect k (handleUserDisconnect k w)) = []"
    by (simp add: twice sent_def)
  from twice gone again none first show ?thesis
    by blast
qed

theorem disconnect_idempotent_witness:
  "Map_get (users aliceBobRoom) ''user_1'' = Some \<lparr>uid = ''user_1'', uname = ''alice'', ws = 0\<rparr>
   \<and> Map_get (users aliceBobRoom) ''user_9'' = None
   \<and> handleUserDisconnect ''user_9'' aliceBobRoom = aliceBobRoom
   \<and> sent aliceBobRoom (handleUserDisconnect ''user_9'' aliceBobRoom) = []
   \<and> openUsers (handleUserDisconnect ''user_1'' aliceBobRoom)
       = [\<lparr>uid = ''user_2'', uname = ''bob'', ws = 1\<rparr>]
   \<and> (\<exists>l r. isNotice Tuser_left ''alice left the chat'' l
         \<and> isNotice Tuser_list
              (stringifyUsers [\<lparr>uid = ''user_2'', uname = ''bob'', ws = 1\<rparr>]) r
         \<and> sent aliceBobRoom (handleUserDisconnect ''user_1'' aliceBobRoom) = [(1, l), (1, r)])
   \<and> length (sent aliceBobRoom (handleUserDisconnect ''user_1'' aliceBobRoom)) = 2
   \<and> handleUserDisconnect ''user_1'' (handleUserDisconnect ''user_1'' aliceBobRoom)
       = handleUserDisconnect ''user_1'' aliceBobRoom
   \<and> Map_get (users (handleUserDisconnect ''user_1'' aliceBobRoom)) ''user_1'' = None
   \<and> sent (handleUserDisconnect ''user_1'' aliceBobRoom)
        (handleUserDisconnect ''user_1'' (handleUserDisconnect ''user_1'' aliceBobRoom)) = []"
proof -
  let ?alice = "\<lparr>uid = ''user_1'', uname = ''alice'', ws = 0\<rparr>"
  let ?bob = "\<lparr>uid = ''user_2'', uname = ''bob'', ws = 1\<rparr>"
  let ?w' = "handleUserDisconnect ''user_1'' aliceBobRoom"
  note idem = disconnect_idempotent [of "''user_1''" aliceBobRoom]
  have a: "Map_get (users aliceBobRoom) ''user_1'' = Some ?alice"
    by (simp add: aliceBobRoom_def Map_get_def)
  have n: "Map_get (users aliceBobRoom) ''user_9'' = None"
    by (simp add: aliceBobRoom_def Map_get_def)
  from n disconnect_idempotent [of "''user_9''" aliceBobRoom]
  have 1: "handleUserDisconnect ''user_9'' aliceBobRoom = aliceBobRoom"
    "sent aliceBobRoom (handleUserDisconnect ''user_9'' aliceBobRoom) = []"
    by blast+
  from idem a obtain l R where
    fr: "isNotice Tuser_left (uname ?alice @ '' left the chat'') l"
        "users ?w' = Map_delete ''user_1'' (users aliceBobRoom)"
        "sent aliceBobRoom ?w' = map (\<lambda>v. (ws v, l)) (openUsers ?w') @ R"
        "map fst R = map ws (openUsers ?w')"
        "\<forall>m \<in> snd ` set R. isNotice Tuser_list (stringifyUsers (Map_values (users ?w'))) m"
        "length (sent aliceBobRoom ?w') = 2 * length (openUsers ?w')"
    by blast
  have u: "users ?w' = [(''user_2'', ?bob)]"
    unfolding fr(2) by (simp add: aliceBobRoom_def Map_delete_def)
  have rs: "readyState ?w' = readyState aliceBobRoom"
    using disconnect_frames [OF a] by blast
  have "readyState aliceBobRoom (ws ?bob) = OPEN"
    by (simp add: aliceBobRoom_def)
  then have ou: "openUsers ?w' = [?bob]"
    by (simp add: openUsers_def u rs Map_values_def)
  from fr(4) obtain r where R: "R = [(1, r)]"
    unfolding ou by (cases R) auto
  from fr(5) have "isNotice Tuser_list (stringifyUsers [?bob]) r"
    by (simp add: R u Map_values_def)
  moreover have "sent aliceBobRoom ?w' = [(1, l), (1, r)]"
    using fr(3) by (simp add: ou R)
  moreover have "isNotice Tuser_left ''alice left the chat'' l"
    using fr(1) by simp
  ultimately have 2: "\<exists>l r. isNotice Tuser_left ''alice left the chat'' l
         \<and> isNotice Tuser_list (stringifyUsers [?bob]) r
         \<and> sent aliceBobRoom ?w' = [(1, l), (1, r)]"
    by blast
  have 3: "length (sent aliceBobRoom ?w') = 2"
    using fr(6) by (simp add: ou)
  from idem have 4: "handleUserDisconnect ''user_1'' ?w' = ?w'"
    "Map_get (users ?w') ''user_1'' = None"
    "sent ?w' (handleUserDisconnect ''user_1'' ?w') = []"
    by blast+
  from a n 1 ou 2 3 4 show ?thesis
    by blast
qed

subsection \<open>The bounded history\<close>

lemma handleChatMessage_users: "users (stateOf (handleChatMessage k c w)) = users w"
proof (cases "Map_get (users w) k")
  case None
  then show ?thesis by (simp add: handleChatMessage_dropped)
next
  case (Some u)
  show ?thesis
  proof (cases "blank c")
    case True
    then show ?thesis by (simp add: handleChatMessage_dropped)
  next
    case False
    show ?thesis
    proof (cases c)
      case (JStr t)
      with False have "trim t \<noteq> []" by simp
      from handleChatMessage_accepted [OF Some this] show ?thesis
        by (simp add: JStr Let_def broadcastMessage_eq Date_now_frame generateMessageId_frame)
    qed (use False Some in \<open>auto simp: handleChatMessage_def\<close>)
  qed
qed

lemma handleChatMessage_refused:
  assumes "\<not> accepted w k c"
  shows "messageHistory (stateOf (handleChatMessage k c w)) = messageHistory w"
    and "chatEvents ((k, c) # ops) w = chatEvents ops (stateOf (handleChatMessage k c w))"
proof -
  have "stateOf (handleChatMessage k c w) = w"
  proof (cases "Map_get (users w) k = None \<or> blank c")
    case True
    then show ?thesis by (simp add: handleChatMessage_dropped)
  next
    case False
    with assms show ?thesis
      by (cases c) (auto simp: handleChatMessage_def)
  qed
  then show "messageHistory (stateOf (handleChatMessage k c w)) = messageHistory w"
    by simp
  show "chatEvents ((k, c) # ops) w = chatEvents ops (stateOf (handleChatMessage k c w))"
    using assms by (cases c) (auto split: option.splits)
qed

lemma handleChatMessage_recorded:
  assumes "Map_get (users w) k = Some u" and "trim t \<noteq> []"
  shows "messageHistory (stateOf (handleChatMessage k (JStr t) w)) =
           (if 100 < length (messageHistory w @ [newMessage u t w])
            then tl (messageHistory w @ [newMessage u t w])
            else messageHistory w @ [newMessage u t w])"
    and "chatEvents ((k, JStr t) # ops) w =
           newMessage u t w # chatEvents ops (stateOf (handleChatMessage k (JStr t) w))"
proof -
  from handleChatMessage_accepted [OF assms]
  show "messageHistory (stateOf (handleChatMessage k (JStr t) w)) =
           (if 100 < length (messageHistory w @ [newMessage u t w])
            then tl (messageHistory w @ [newMessage u t w])
            else messageHistory w @ [newMessage u t w])"
    by (simp add: Let_def broadcastMessage_eq Date_now_frame generateMessageId_frame
        newMessage_def split_beta)
  show "chatEvents ((k, JStr t) # ops) w =
           newMessage u t w # chatEvents ops (stateOf (handleChatMessage k (JStr t) w))"
    using assms by simp
qed

lemma drop_tl_append:
  assumes "length h = 101"
  shows "drop (length (tl h @ es) - 100) (tl h @ es) = drop (length (h @ es) - 100) (h @ es)"
proof -
  obtain x xs where h: "h = x # xs" using assms by (cases h) auto
  with assms have "length xs = 100" by simp
  then show ?thesis by (simp add: h)
qed

lemma chats_history:
  "length (messageHistory w) \<le> 100 \<Longrightarrow>
   messageHistory (chats ops w) =
     drop (length (messageHistory w @ chatEvents ops w) - 100)
          (messageHistory w @ chatEvents ops w)"
proof (induction ops arbitrary: w)
  case Nil
  then show ?case by simp
next
  case (Cons op ops)
  obtain k c where op: "op = (k, c)" by (cases op)
  let ?w' = "stateOf (handleChatMessage k c w)"
  let ?E = "chatEvents ops ?w'"
  have ch: "chats (op # ops) w = chats ops ?w'"
    by (simp add: op)
  show ?case
  proof (cases "accepted w k c")
    case False
    from handleChatMessage_refused [OF False]
    have h': "messageHistory ?w' = messageHistory w"
      and ev: "chatEvents (op # ops) w = ?E"
      by (simp_all add: op)
    from Cons.prems have "length (messageHistory ?w') \<le> 100"
      by (simp add: h')
    from Cons.IH [OF this] show ?thesis
      unfolding ch ev h' .
  next
    case True
    then obtain t u where c: "c = JStr t" and t: "trim t \<noteq> []" and u: "Map_get (users w) k = Some u"
      by (cases c) auto
    let ?m = "newMessage u t w"
    let ?pushed = "messageHistory w @ [?m]"
    note rec = handleChatMessage_recorded [OF u t, folded c]
    have ev: "chatEvents (op # ops) w = ?m # ?E"
      using rec(2) by (simp add: op c)
    have app: "?pushed @ ?E = messageHistory w @ chatEvents (op # ops) w"
      by (simp add: ev)
    show ?thesis
    proof (cases "100 < length ?pushed")
      case True
      with Cons.prems have len: "length ?pushed = 101" by simp
      have h': "messageHistory ?w' = tl ?pushed"
        using rec(1) True by (simp add: c)
      then have "length (messageHistory ?w') \<le> 100"
        using len by simp
      from Cons.IH [OF this]
      have "messageHistory (chats ops ?w') =
              drop (length (tl ?pushed @ ?E) - 100) (tl ?pushed @ ?E)"
        by (simp only: h')
      also have "\<dots> = drop (length (?pushed @ ?E) - 100) (?pushed @ ?E)"
        using len by (rule drop_tl_append)
      finally show ?thesis
        unfolding ch app .
    next
      case False
      have h': "messageHistory ?w' = ?pushed"
        using rec(1) False by (simp add: c)
      then have "length (messageHistory ?w') \<le> 100"
        using False by simp
      from Cons.IH [OF this] show ?thesis
        unfolding ch h' app .
    qed
  qed
qed

lemma chatEvents_all_accepted:
  "list_all (\<lambda>(k, c). accepted w k c) ops \<Longrightarrow>
   length (chatEvents ops w) = length ops
   \<and> map content (chatEvents ops w) = map (\<lambda>(k, c). sentText c) ops"
proof (induction ops arbitrary: w)
  case Nil
  then show ?case by simp
next
  case (Cons op ops)
  obtain k c where op: "op = (k, c)" by (cases op)
  let ?w' = "stateOf (handleChatMessage k c w)"
  from Cons.prems have acc: "accepted w k c" and rest: "list_all (\<lambda>(k, c). accepted w k c) ops"
    by (simp_all add: op)
  from acc obtain t u where c: "c = JStr t" and t: "trim t \<noteq> []" and u: "Map_get (users w) k = Some u"
    by (cases c) auto
  have "accepted ?w' k' c' = accepted w k' c'" for k' c'
    by (cases c') (simp_all add: handleChatMessage_users)
  with rest have "list_all (\<lambda>(k, c). accepted ?w' k c) ops"
    by simp
  from Cons.IH [OF this] handleChatMessage_recorded(2) [OF u t, folded c]
  show ?case
    by (simp add: op) (simp add: c newMessage_def split_beta)
qed

text \<open>
  Claim C2. Starting from an empty history, after a run of accepted chat messages
  the history holds as many entries as there were messages, up to 100, and it is
  the run of messages built with all but the last 100 dropped from the front: after
  101 messages its first entry is the second message built. The content of the
  i-th message built is the trimmed content of the i-th call.
\<close>

theorem history_bounded_fifo:
  assumes "messageHistory w = []"
    and "list_all (\<lambda>(k, c). accepted w k c) ops"
  shows "length (messageHistory (chats ops w)) = min (length ops) 100
       \<and> length (chatEvents ops w) = length ops
       \<and> map content (chatEvents ops w) = map (\<lambda>(k, c). sentText c) ops
       \<and> messageHistory (chats ops w) = drop (length ops - 100) (chatEvents ops w)
       \<and> (length ops = 101 \<longrightarrow> hd (messageHistory (chats ops w)) = chatEvents ops w ! 1)"
proof -
  from chatEvents_all_accepted [OF assms(2)]
  have len: "length (chatEvents ops w) = length ops"
    and texts: "map content (chatEvents ops w) = map (\<lambda>(k, c). sentText c) ops"
    by simp_all
  have h: "messageHistory (chats ops w) = drop (length ops - 100) (chatEvents ops w)"
    using chats_history [of w ops] by (simp add: assms(1) len)
  have "length (messageHistory (chats ops w)) = min (length ops) 100"
    unfolding h by (simp add: len)
  moreover have "hd (messageHistory (chats ops w)) = chatEvents ops w ! 1" if "length ops = 101"
    unfolding h using that len by (simp add: hd_drop_conv_nth)
  ultimately show ?thesis
    using len texts h by blast
qed

theorem history_bounded_fifo_witness:
  "messageHistory aliceRoom = []
   \<and> accepted aliceRoom ''user_1'' (JStr ''hi'')
   \<and> length (messageHistory (chats (replicate 101 (''user_1'', JStr ''hi'')) aliceRoom)) = 100
   \<and> hd (messageHistory (chats (replicate 101 (''user_1'', JStr ''hi'')) aliceRoom))
       = chatEvents (replicate 101 (''user_1'', JStr ''hi'')) aliceRoom ! 1
   \<and> messageHistory (chats (replicate 101 (''user_1'', JStr ''hi'')) aliceRoom)
       = drop 1 (chatEvents (replicate 101 (''user_1'', JStr ''hi'')) aliceRoom)"
proof -
  have h: "messageHistory aliceRoom = []"
    by (simp add: aliceRoom_def)
  have a: "accepted aliceRoom ''user_1'' (JStr ''hi'')"
    by code_simp
  then have all: "list_all (\<lambda>(k, c). accepted aliceRoom k c) (replicate 101 (''user_1'', JStr ''hi''))"
    by (simp add: list_all_iff)
  note fifo = history_bounded_fifo [OF h all]
  from fifo have 1: "length (messageHistory (chats (replicate 101 (''user_1'', JStr ''hi'')) aliceRoom)) = 100"
    by simp
  have 2: "hd (messageHistory (chats (replicate 101 (''user_1'', JStr ''hi'')) aliceRoom))
       = chatEvents (replicate 101 (''user_1'', JStr ''hi'')) aliceRoom ! 1"
    by (rule fifo [THEN conjunct2, THEN conjunct2, THEN conjunct2, THEN conjunct2, rule_format])
      simp
  from fifo have 3: "messageHistory (chats (replicate 101 (''user_1'', JStr ''hi'')) aliceRoom)
       = drop 1 (chatEvents (replicate 101 (''user_1'', JStr ''hi'')) aliceRoom)"
    by simp
  from h a 1 2 3 show ?thesis
    by blast
qed

subsection \<open>What an event changes\<close>

lemma handleUserJoin_cases:
  obtains (rejected) e where "blank u \<or> nameTaken w u"
      "handleUserJoin s k u w = Normal (sendError s e w)"
    | (thrown) "\<not> blank u" "\<forall>n. u \<noteq> JStr n" "handleUserJoin s k u w = Throw w"
    | (accepted) n where "u = JStr n" "trim n \<noteq> []" "\<not> nameTaken w (JStr n)"
      "handleUserJoin s k u w =
         (let w1 = w\<lparr>users := Map_set k \<lparr>uid = k, uname = trim n, ws = s\<rparr> (users w)\<rparr>;
              p = systemMessage Tuser_joined (trim n @ '' joined the chat'') w1
          in Normal (sendMessageHistory s (broadcastUserList (broadcastMessage (fst p) (snd p)))))"
proof (cases "blank u")
  case True
  then have "\<not> truthy u \<or> (\<exists>n. u = JStr n \<and> trim n = [])"
    by (cases u) auto
  from handleUserJoin_required [OF this] True show ?thesis
    by (auto intro: rejected)
next
  case False
  show ?thesis
  proof (cases u)
    case (JStr n)
    with False have t: "trim n \<noteq> []" by simp
    show ?thesis
    proof (cases "nameTaken w (JStr n)")
      case True
      then have "handleUserJoin s k (JStr n) w = Normal (sendError s ''Username already taken'' w)"
        using t by (simp add: handleUserJoin_taken)
      with True JStr show ?thesis by (auto intro: rejected)
    next
      case nt: False
      then have "\<forall>x \<in> set (Map_values (users w)). toLowerCase (uname x) \<noteq> toLowerCase (trim n)"
        by simp
      from handleUserJoin_accepted [OF t this] JStr t nt show ?thesis
        by (auto intro: accepted)
    qed
  qed (use False in \<open>auto intro!: thrown handleUserJoin_throws\<close>)
qed

lemma handleUserJoin_frame:
  "messageHistory (stateOf (handleUserJoin s k u w)) = messageHistory w"
  "nextUserId (stateOf (handleUserJoin s k u w)) = nextUserId w"
  "listeners (stateOf (handleUserJoin s k u w)) = listeners w"
  "readyState (stateOf (handleUserJoin s k u w)) = readyState w"
  by (cases rule: handleUserJoin_cases [of u w s k];
      simp add: sendError_frame Let_def sendMessageHistory_eq broadcastUserList_frame
        broadcastMessage_eq systemMessage_frame)+

lemma handleUserJoin_users:
  "users (stateOf (handleUserJoin s k u w)) =
     (case u of
        JStr n \<Rightarrow> if trim n \<noteq> [] \<and> \<not> nameTaken w u
                  then Map_set k \<lparr>uid = k, uname = trim n, ws = s\<rparr> (users w) else users w
      | _ \<Rightarrow> users w)"
  by (cases rule: handleUserJoin_cases [of u w s k])
    (auto simp: sendError_frame Let_def sendMessageHistory_eq broadcastUserList_frame
        broadcastMessage_eq systemMessage_frame split: jsval.splits)

lemma handleChatMessage_frame:
  "users (stateOf (handleChatMessage k c w)) = users w"
  "nextUserId (stateOf (handleChatMessage k c w)) = nextUserId w"
  "listeners (stateOf (handleChatMessage k c w)) = listeners w"
  "readyState (stateOf (handleChatMessage k c w)) = readyState w"
proof -
  have "users (stateOf (handleChatMessage k c w)) = users w
      \<and> nextUserId (stateOf (handleChatMessage k c w)) = nextUserId w
      \<and> listeners (stateOf (handleChatMessage k c w)) = listeners w
      \<and> readyState (stateOf (handleChatMessage k c w)) = readyState w"
  proof (cases "accepted w k c")
    case True
    then obtain t u where c: "c = JStr t" and t: "trim t \<noteq> []" and u: "Map_get (users w) k = Some u"
      by (cases c) auto
    from handleChatMessage_accepted [OF u t] show ?thesis
      by (simp add: c Let_def broadcastMessage_eq Date_now_frame generateMessageId_frame)
  next
    case False
    have "stateOf (handleChatMessage k c w) = w"
    proof (cases "Map_get (users w) k = None \<or> blank c")
      case True
      then show ?thesis by (simp add: handleChatMessage_dropped)
    next
      case nb: False
      with False show ?thesis
        by (cases c) (auto simp: handleChatMessage_def)
    qed
    then show ?thesis by simp
  qed
  then show "users (stateOf (handleChatMessage k c w)) = users w"
    "nextUserId (stateOf (handleChatMessage k c w)) = nextUserId w"
    "listeners (stateOf (handleChatMessage k c w)) = listeners w"
    "readyState (stateOf (handleChatMessage k c w)) = readyState w"
    by simp_all
qed

lemma handleUserDisconnect_frame:
  "messageHistory (handleUserDisconnect k w) = messageHistory w"
  "nextUserId (handleUserDisconnect k w) = nextUserId w"
  "listeners (handleUserDisconnect k w) = listeners w"
  "readyState (handleUserDisconnect k w) = readyState w"
  by (cases "Map_get (users w) k";
      simp add: handleUserDisconnect_absent handleUserDisconnect_present Let_def
        broadcastUserList_frame broadcastMessage_eq systemMessage_frame)+

lemma handleUserDisconnect_users:
  "users (handleUserDisconnect k w) = Map_delete k (users w)"
proof (cases "Map_get (users w) k")
  case None
  then have "k \<notin> fst ` set (users w)"
    by (simp add: Map_get_def map_of_eq_None_iff)
  then have "Map_delete k (users w) = users w"
    by (auto simp: Map_delete_def filter_id_conv)
  with None show ?thesis by (simp add: handleUserDisconnect_absent)
next
  case (Some u)
  then show ?thesis
    by (simp add: handleUserDisconnect_present Let_def broadcastUserList_frame
        broadcastMessage_eq systemMessage_frame)
qed

lemma completion_frame:
  assumes "\<And>w'. f (sendError s e w') = f w'"
  shows "f (case c of Normal w' \<Rightarrow> w' | Throw w' \<Rightarrow> sendError s e w') = f (stateOf c)"
  using assms by (cases c) simp_all

lemma handleMessage_cases:
  obtains (join) "joinRequest (Message s (Some msg)) = Some (getProp msg ''username'')"
      "handleMessage s k msg w = handleUserJoin s k (getProp msg ''username'') w"
    | (chat) "joinRequest (Message s (Some msg)) = None"
      "handleMessage s k msg w = handleChatMessage k (getProp msg ''content'') w"
    | (thrown) "joinRequest (Message s (Some msg)) = None" "handleMessage s k msg w = Throw w"
    | (unknown) "joinRequest (Message s (Some msg)) = None"
      "handleMessage s k msg w = Normal (sendError s ''Unknown message type'' w)"
proof (cases "msg = JNull \<or> msg = JUndefined")
  case True
  then show ?thesis by (auto simp: handleMessage_def intro: thrown)
next
  case False
  then show ?thesis
    by (cases "getProp msg ''type'' = JStr ''join''"; cases "getProp msg ''type'' = JStr ''message''")
      (auto simp: handleMessage_def intro: join chat unknown)
qed

lemma handleMessage_frame:
  "nextUserId (stateOf (handleMessage s k msg w)) = nextUserId w"
  "listeners (stateOf (handleMessage s k msg w)) = listeners w"
  "readyState (stateOf (handleMessage s k msg w)) = readyState w"
  by (cases rule: handleMessage_cases [of s msg k w];
      simp add: handleUserJoin_frame handleChatMessage_frame sendError_frame)+

lemma handleMessage_users:
  "users (stateOf (handleMessage s k msg w)) =
     (case joinRequest (Message s (Some msg)) of
        Some u \<Rightarrow> users (stateOf (handleUserJoin s k u w))
      | None \<Rightarrow> users w)"
  by (cases rule: handleMessage_cases [of s msg k w])
    (simp_all add: handleChatMessage_frame sendError_frame)

lemma onMessage_frame:
  "nextUserId (onMessage s k d w) = nextUserId w"
  "listeners (onMessage s k d w) = listeners w"
  "readyState (onMessage s k d w) = readyState w"
  by (cases d; simp add: onMessage_def sendError_frame completion_frame handleMessage_frame)+

lemma onMessage_users:
  "users (onMessage s k d w) =
     (case joinRequest (Message s d) of
        Some u \<Rightarrow> users (stateOf (handleUserJoin s k u w))
      | None \<Rightarrow> users w)"
  by (cases d) (simp_all add: onMessage_def sendError_frame completion_frame handleMessage_users)

lemma onConnection_frame:
  "users (onConnection s w) = users w"
  "messageHistory (onConnection s w) = messageHistory w"
  "nextUserId (onConnection s w) = Suc (nextUserId w)"
  "listeners (onConnection s w) = listeners w @ [(s, ''user_'' @ dec (nextUserId w))]"
  "readyState (onConnection s w) = readyState w"
  by (simp_all add: onConnection_def Let_def split_beta sendUserList_frame sendMessage_frame
      systemMessage_frame)

lemma step_listeners:
  "listeners (step e w) =
     (if e = Connection
      then listeners w @ [(length (listeners w), ''user_'' @ dec (nextUserId w))]
      else listeners w)"
  "nextUserId (step e w) = (if e = Connection then Suc (nextUserId w) else nextUserId w)"
  by (cases e; simp add: Let_def onConnection_frame onMessage_frame handleUserDisconnect_frame
      split: option.splits)+

lemma step_users:
  "users (step e w) =
     (case origin w e of
        None \<Rightarrow> users w
      | Some k \<Rightarrow>
          if isDisconnect e then Map_delete k (users w)
          else case e of
            Message s d \<Rightarrow>
              (case joinRequest e of
                 Some (JStr n) \<Rightarrow>
                   if joinAccepted w e
                   then Map_set k \<lparr>uid = k, uname = trim n, ws = s\<rparr> (users w) else users w
               | _ \<Rightarrow> users w)
          | _ \<Rightarrow> users w)"
proof (cases e)
  case Connection
  then show ?thesis by (simp add: Let_def onConnection_frame)
next
  case (Message s d)
  show ?thesis
  proof (cases "map_of (listeners w) s")
    case None
    then show ?thesis by (simp add: Message)
  next
    case (Some k)
    show ?thesis
      unfolding Message
      by (simp add: Some onMessage_users handleUserJoin_users del: joinRequest.simps
          split: option.splits jsval.splits)
  qed
next
  case (Close s)
  then show ?thesis by (simp add: handleUserDisconnect_users split: option.splits)
next
  case (Error s)
  then show ?thesis by (simp add: handleUserDisconnect_users split: option.splits)
next
  case (ReadyState s r)
  then show ?thesis by simp
qed

lemma run_invariant:
  assumes "P w" and "\<And>e w. P w \<Longrightarrow> P (step e w)"
  shows "P (run evs w)"
  unfolding run_def using assms(1)
  by (induction evs arbitrary: w) (simp_all add: assms(2))

subsection \<open>Names stay distinct\<close>

lemma set_Map_set: "set (Map_set k v es) \<subseteq> insert (k, v) (set es)"
  by (induction es) (auto split: if_splits)

lemma distinct_Map_set:
  assumes "distinct (map f (Map_values es))" and "f v \<notin> f ` set (Map_values es)"
  shows "distinct (map f (Map_values (Map_set k v es)))"
  using assms
proof (induction es)
  case Nil
  then show ?case by (simp add: Map_values_def)
next
  case (Cons e es)
  obtain k' v' where e: "e = (k', v')" by (cases e)
  show ?case
  proof (cases "k' = k")
    case True
    with Cons.prems show ?thesis by (auto simp: e Map_values_def)
  next
    case False
    from Cons.prems have d: "distinct (map f (Map_values es))" and n: "f v \<notin> f ` set (Map_values es)"
      and v': "f v' \<notin> f ` set (Map_values es)" and ne: "f v \<noteq> f v'"
      by (auto simp: e Map_values_def)
    have "f v' \<notin> f ` set (Map_values (Map_set k v es))"
    proof
      assume "f v' \<in> f ` set (Map_values (Map_set k v es))"
      then obtain x where x: "x \<in> set (Map_set k v es)" "f v' = f (snd x)"
        by (auto simp: Map_values_def)
      with set_Map_set [of k v es] have "x = (k, v) \<or> x \<in> set es" by auto
      with x ne v' show False by (auto simp: Map_values_def)
    qed
    with Cons.IH [OF d n] False show ?thesis
      by (simp add: e Map_values_def image_image)
  qed
qed

lemma distinct_Map_delete:
  "distinct (map f (Map_values es)) \<Longrightarrow> distinct (map f (Map_values (Map_delete k es)))"
  by (induction es) (auto simp: Map_values_def Map_delete_def)

lemma step_names_distinct:
  assumes "distinct (lowerNames w)"
  shows "distinct (lowerNames (step e w))"
proof -
  have del: "distinct (map (\<lambda>u. toLowerCase (uname u)) (Map_values (Map_delete k (users w))))" for k
    using assms unfolding lowerNames_def by (rule distinct_Map_delete)
  have set: "distinct (map (\<lambda>u. toLowerCase (uname u))
               (Map_values (Map_set k \<lparr>uid = k, uname = trim n, ws = s\<rparr> (users w))))"
    if "\<not> nameTaken w (JStr n)" for k n s
    using assms that unfolding lowerNames_def
    by (intro distinct_Map_set) auto
  show ?thesis
    unfolding lowerNames_def step_users
    using assms del set
    by (auto simp: lowerNames_def split: option.splits event.splits jsval.splits)
qed

text \<open>
  Claim C1. In every state the server reaches, by whatever events (joins, chat
  messages, connections, disconnects, in any order and from any sockets), the
  names of the joined sessions are pairwise different once lower-cased.
\<close>

theorem names_unique: "distinct (lowerNames (run evs (initial clock rnd)))"
proof (rule run_invariant)
  show "distinct (lowerNames (initial clock rnd))"
    by (simp add: lowerNames_def initial_def Map_values_def)
qed (rule step_names_distinct)

subsection \<open>A name can be replaced\<close>

lemma Map_get_set: "Map_get (Map_set k' v es) k = (if k = k' then Some v else Map_get es k)"
  by (induction es) (auto simp: Map_get_def)

lemma Map_get_delete_other: "Map_get (Map_delete k' es) k = (if k = k' then None else Map_get es k)"
  by (induction es) (auto simp: Map_get_def Map_delete_def)

text \<open>
  Claim C4, as the code has it. \<open>handleUserJoin\<close> does not look whether the session
  is joined already, and \<open>users.set\<close> replaces its entry: a joined session that
  sends a further join with a name that is accepted is renamed. The name of a
  joined session is left as it is by every event of another session, by a new
  connection, and by every event of its own that is neither an accepted join nor
  its disconnect; its disconnect removes the entry.
\<close>

theorem name_changes_only_by_own_join:
  assumes "Map_get (users w) k = Some u"
  shows "(origin w e \<noteq> Some k \<or> (\<not> joinAccepted w e \<and> \<not> isDisconnect e)
            \<longrightarrow> Map_get (users (step e w)) k = Some u)
       \<and> (origin w e = Some k \<and> isDisconnect e \<longrightarrow> Map_get (users (step e w)) k = None)
       \<and> (origin w e = Some k \<and> joinAccepted w e
            \<longrightarrow> (\<exists>n. joinRequest e = Some (JStr n)
                   \<and> map_option uname (Map_get (users (step e w)) k) = Some (trim n)))"
  unfolding step_users using assms
  by (cases e) (auto simp: Map_get_set Map_get_delete_other split: option.splits jsval.splits)

text \<open>
  Claim C4 as stated fails. One socket connects and joins as alice, then sends a second
  join as bob: its entry, first under the name alice, is then under the name bob.
\<close>

theorem displayName_rebound_counterexample:
  "Map_get (users (run [Connection,
        Message 0 (Some (JObj [(''type'', JStr ''join''), (''username'', JStr ''alice'')]))]
      (initial id dec))) ''user_1''
     = Some \<lparr>uid = ''user_1'', uname = ''alice'', ws = 0\<rparr>
   \<and> Map_get (users (run [Connection,
        Message 0 (Some (JObj [(''type'', JStr ''join''), (''username'', JStr ''alice'')])),
        Message 0 (Some (JObj [(''type'', JStr ''join''), (''username'', JStr ''bob'')]))]
      (initial id dec))) ''user_1''
     = Some \<lparr>uid = ''user_1'', uname = ''bob'', ws = 0\<rparr>"
  by code_simp

theorem name_changes_only_by_own_join_witness:
  "Map_get (users aliceRoom) ''user_1'' = Some \<lparr>uid = ''user_1'', uname = ''alice'', ws = 0\<rparr>
   \<and> origin aliceRoom (Message 1 (Some (JObj [(''type'', JStr ''join''), (''username'', JStr ''bob'')])))
       \<noteq> Some ''user_1''
   \<and> Map_get (users (step (Message 1 (Some (JObj [(''type'', JStr ''join''), (''username'', JStr ''bob'')])))
         aliceRoom)) ''user_1''
       = Some \<lparr>uid = ''user_1'', uname = ''alice'', ws = 0\<rparr>
   \<and> origin aliceRoom (Close 0) = Some ''user_1'' \<and> isDisconnect (Close 0)
   \<and> Map_get (users (step (Close 0) aliceRoom)) ''user_1'' = None
   \<and> origin aliceRoom (Message 0 (Some (JObj [(''type'', JStr ''join''), (''username'', JStr ''bob'')])))
       = Some ''user_1''
   \<and> joinAccepted aliceRoom (Message 0 (Some (JObj [(''type'', JStr ''join''), (''username'', JStr ''bob'')])))
   \<and> map_option uname (Map_get (users (step
         (Message 0 (Some (JObj [(''type'', JStr ''join''), (''username'', JStr ''bob'')]))) aliceRoom))
         ''user_1'') = Some (trim ''bob'')"
proof -
  let ?alice = "\<lparr>uid = ''user_1'', uname = ''alice'', ws = 0\<rparr>"
  let ?join = "Some (JObj [(''type'', JStr ''join''), (''username'', JStr ''bob'')])"
  have a: "Map_get (users aliceRoom) ''user_1'' = Some ?alice"
    by (simp add: aliceRoom_def Map_get_def)
  have o1: "origin aliceRoom (Message 1 ?join) \<noteq> Some ''user_1''"
    by (simp add: aliceRoom_def)
  have o0: "origin aliceRoom (Message 0 ?join) = Some ''user_1''"
    by (simp add: aliceRoom_def)
  have oc: "origin aliceRoom (Close 0) = Some ''user_1''" "isDisconnect (Close 0)"
    by (simp_all add: aliceRoom_def)
  have j: "joinAccepted aliceRoom (Message 0 ?join)"
    by code_simp
  have r: "joinRequest (Message 0 ?join) = Some (JStr ''bob'')"
    by simp
  from name_changes_only_by_own_join [OF a, of "Message 1 ?join"] o1
  have 1: "Map_get (users (step (Message 1 ?join) aliceRoom)) ''user_1'' = Some ?alice"
    by blast
  from name_changes_only_by_own_join [OF a, of "Close 0"] oc
  have 2: "Map_get (users (step (Close 0) aliceRoom)) ''user_1'' = None"
    by blast
  from name_changes_only_by_own_join [OF a, of "Message 0 ?join"] o0 j r
  have 3: "map_option uname (Map_get (users (step (Message 0 ?join) aliceRoom)) ''user_1'')
             = Some (trim ''bob'')"
    by auto
  from a o1 1 oc 2 o0 j 3 show ?thesis
    by blast
qed

subsection \<open>Connections\<close>

lemma undec_dec: "undec (dec n) = n"
proof (induction n rule: dec.induct)
  case (1 n)
  show ?case
  proof (cases "n < 10")
    case True
    then show ?thesis
      by (subst dec.simps) (simp add: undec_def digit_def)
  next
    case False
    with 1 have "undec (dec (n div 10)) = n div 10" by simp
    moreover have "n mod 10 < 10" by simp
    ultimately show ?thesis
      using False by (subst dec.simps) (simp add: undec_def digit_def)
  qed
qed

lemma dec_inject: "dec m = dec n \<Longrightarrow> m = n"
  by (metis undec_dec)

lemma upt_step:
  "map (\<lambda>i. (i, ''user_'' @ dec (Suc i))) [0..<Suc m]
     = map (\<lambda>i. (i, ''user_'' @ dec (Suc i))) [0..<m] @ [(m, ''user_'' @ dec (Suc m))]"
  by simp

lemma registered_length: "registered w \<Longrightarrow> length (listeners w) = nextUserId w - 1"
  by (simp add: registered_def)

lemma step_registered:
  assumes "registered w"
  shows "registered (step e w)"
proof (cases "e = Connection")
  case False
  with assms show ?thesis by (simp add: registered_def step_listeners)
next
  case True
  from assms have n: "1 \<le> nextUserId w"
    and l: "listeners w = map (\<lambda>i. (i, ''user_'' @ dec (Suc i))) [0..<nextUserId w - 1]"
    by (simp_all add: registered_def)
  have len: "length (listeners w) = nextUserId w - 1"
    using assms by (rule registered_length)
  have suc: "Suc (nextUserId w - 1) = nextUserId w"
    using n by simp
  have "listeners (step e w) = listeners w @ [(nextUserId w - 1, ''user_'' @ dec (nextUserId w))]"
    by (simp add: step_listeners(1) True len del: step.simps)
  also have "\<dots> = map (\<lambda>i. (i, ''user_'' @ dec (Suc i))) [0..<nextUserId w - 1]
                   @ [(nextUserId w - 1, ''user_'' @ dec (nextUserId w))]"
    using l by simp
  also have "\<dots> = map (\<lambda>i. (i, ''user_'' @ dec (Suc i))) [0..<nextUserId w]"
    using upt_step [of "nextUserId w - 1", symmetric] by (simp only: suc)
  finally have "listeners (step e w)
      = map (\<lambda>i. (i, ''user_'' @ dec (Suc i))) [0..<nextUserId (step e w) - 1]"
    by (simp add: step_listeners(2) True del: step.simps)
  moreover have "1 \<le> nextUserId (step e w)"
    by (simp add: step_listeners(2) True del: step.simps)
  ultimately show ?thesis
    unfolding registered_def by blast
qed

lemma reachable_registered: "registered (run evs (initial clock rnd))"
proof (rule run_invariant)
  show "registered (initial clock rnd)"
    by (simp add: registered_def initial_def)
qed (rule step_registered)

lemma registered_fresh:
  assumes "registered w"
  shows "''user_'' @ dec (nextUserId w) \<notin> snd ` set (listeners w)"
    and "length (listeners w) \<notin> fst ` set (listeners w)"
proof -
  define n where "n = nextUserId w - 1"
  from assms have l: "listeners w = map (\<lambda>i. (i, ''user_'' @ dec (Suc i))) [0..<n]"
    and n: "nextUserId w = Suc n"
    by (simp_all add: registered_def n_def)
  have ids: "snd ` set (listeners w) = (\<lambda>i. ''user_'' @ dec (Suc i)) ` {0..<n}"
    unfolding l by (simp add: image_image)
  have socks: "fst ` set (listeners w) = {0..<n}"
    unfolding l by (simp add: image_image)
  show "''user_'' @ dec (nextUserId w) \<notin> snd ` set (listeners w)"
  proof
    assume "''user_'' @ dec (nextUserId w) \<in> snd ` set (listeners w)"
    then obtain i where i: "i < n" "''user_'' @ dec (Suc n) = ''user_'' @ dec (Suc i)"
      unfolding ids n by auto
    from i(2) have "dec (Suc n) = dec (Suc i)" by simp
    then have "Suc n = Suc i" by (rule dec_inject)
    with i(1) show False by simp
  qed
  have "length (listeners w) = n"
    unfolding l by simp
  then show "length (listeners w) \<notin> fst ` set (listeners w)"
    unfolding socks by simp
qed

lemma onConnection_wire:
  assumes "readyState w s = OPEN"
  shows "\<exists>welcome roster.
           isNotice Tuser_joined ''Welcome to the chat!'' welcome
         \<and> isNotice Tuser_list (stringifyUsers (Map_values (users w))) roster
         \<and> wire (onConnection s w) = wire w @ [(s, welcome), (s, roster)]"
proof -
  define w1 where "w1 = w\<lparr>nextUserId := nextUserId w + 1,
               listeners := listeners w @ [(s, ''user_'' @ dec (nextUserId w))]\<rparr>"
  define p where "p = systemMessage Tuser_joined ''Welcome to the chat!'' w1"
  define w3 where "w3 = sendMessage s (fst p) (snd p)"
  define roster where "roster = fst (systemMessage Tuser_list (stringifyUsers (Map_values (users w3))) w3)"
  have res: "onConnection s w = sendUserList s w3"
    by (simp add: onConnection_def Let_def split_beta w3_def p_def w1_def)
  have w3: "users w3 = users w" "readyState w3 = readyState w"
      "wire w3 = wire w @ [(s, fst p)]"
    using assms
    by (simp_all add: w3_def p_def w1_def sendMessage_frame sendMessage_wire systemMessage_frame)
  have "wire (onConnection s w) = wire w @ [(s, fst p), (s, roster)]"
    unfolding res using assms by (simp add: sendUserList_wire w3 roster_def)
  moreover have "isNotice Tuser_joined ''Welcome to the chat!'' (fst p)"
    unfolding p_def by (rule systemMessage_isNotice)
  moreover have "isNotice Tuser_list (stringifyUsers (Map_values (users w))) roster"
    using systemMessage_isNotice [of Tuser_list "stringifyUsers (Map_values (users w3))" w3]
    by (simp only: w3(1) roster_def)
  ultimately show ?thesis by blast
qed

text \<open>
  Claim C9, as the code has it. In every state the server reaches, a new connection
  gets an id that no earlier connection got, on a socket that had no handlers
  before; \<open>users\<close> and \<open>messageHistory\<close> are left as they are; and exactly two frames
  are sent, both to the new socket: first the welcome, a notice of type
  \<open>user_joined\<close>, then a \<open>user_list\<close> notice with the roster of the joined sessions.
\<close>

theorem connection_greets:
  "let w = run evs (initial clock rnd);
       w' = step Connection w;
       s = length (listeners w);
       k = ''user_'' @ dec (nextUserId w)
   in listeners w' = listeners w @ [(s, k)]
    \<and> k \<notin> snd ` set (listeners w)
    \<and> s \<notin> fst ` set (listeners w)
    \<and> users w' = users w \<and> messageHistory w' = messageHistory w
    \<and> (\<exists>welcome roster.
          isNotice Tuser_joined ''Welcome to the chat!'' welcome
        \<and> isNotice Tuser_list (stringifyUsers (Map_values (users w))) roster
        \<and> sent w w' = [(s, welcome), (s, roster)])"
proof -
  define w where "w = run evs (initial clock rnd)"
  define s where "s = length (listeners w)"
  define v where "v = w\<lparr>readyState := (readyState w)(s := OPEN)\<rparr>"
  have reg: "registered w"
    unfolding w_def by (rule reachable_registered)
  have st: "step Connection w = onConnection s v"
    by (simp add: Let_def s_def v_def)
  have v: "users v = users w" "messageHistory v = messageHistory w" "wire v = wire w"
    by (simp_all add: v_def)
  have "readyState v s = OPEN"
    by (simp add: v_def)
  from onConnection_wire [OF this] obtain greeting roster where
    "isNotice Tuser_joined ''Welcome to the chat!'' greeting"
    "isNotice Tuser_list (stringifyUsers (Map_values (users w))) roster"
    "wire (onConnection s v) = wire w @ [(s, greeting), (s, roster)]"
    unfolding v by blast
  then have frames: "\<exists>welcome roster.
          isNotice Tuser_joined ''Welcome to the chat!'' welcome
        \<and> isNotice Tuser_list (stringifyUsers (Map_values (users w))) roster
        \<and> sent w (step Connection w) = [(s, welcome), (s, roster)]"
    unfolding st sent_def by auto
  have l: "listeners (step Connection w) = listeners w @ [(s, ''user_'' @ dec (nextUserId w))]"
    by (simp add: step_listeners(1) s_def del: step.simps)
  have u: "users (step Connection w) = users w" "messageHistory (step Connection w) = messageHistory w"
    unfolding st by (simp_all add: onConnection_frame v)
  from registered_fresh [OF reg]
  have f: "''user_'' @ dec (nextUserId w) \<notin> snd ` set (listeners w)" "s \<notin> fst ` set (listeners w)"
    unfolding s_def by blast+
  from l f u frames show ?thesis
    unfolding Let_def w_def [symmetric] s_def [symmetric] by blast
qed

text \<open>
  Claim C9 as stated fails on the kind of the welcome: the first frame a new connection
  is sent has the type \<open>user_joined\<close>, not \<open>message\<close>.
\<close>

theorem welcome_kind_counterexample:
  "map (\<lambda>f. (fst f, mtype (snd f), content (snd f)))
     (sent (initial id dec) (step Connection (initial id dec)))
   = [(0, Tuser_joined, ''Welcome to the chat!''), (0, Tuser_list, ''[]'')]"
proof -
  define v where "v = (initial id dec)\<lparr>readyState := (readyState (initial id dec))(0 := OPEN)\<rparr>"
  have st: "step Connection (initial id dec) = onConnection 0 v"
    by (simp add: Let_def v_def initial_def)
  have v: "users v = []" "wire v = []" "wire (initial id dec) = []"
    by (simp_all add: v_def initial_def)
  have "readyState v 0 = OPEN"
    by (simp add: v_def)
  from onConnection_wire [OF this] obtain greeting roster where
    "isNotice Tuser_joined ''Welcome to the chat!'' greeting"
    "isNotice Tuser_list (stringifyUsers (Map_values (users v))) roster"
    "wire (onConnection 0 v) = wire v @ [(0, greeting), (0, roster)]"
    by blast
  then show ?thesis
    unfolding st sent_def
    by (simp add: v isNotice_def stringifyUsers_def Map_values_def)
qed

subsection \<open>How users is filed in the states the server reaches\<close>

lemma Map_set_keys:
  "map fst (Map_set k v es) = (if k \<in> fst ` set es then map fst es else map fst es @ [k])"
  by (induction es) (force split: if_splits)+

lemma map_of_listeners_grow:
  "map_of ls x = Some k \<Longrightarrow> map_of (ls @ [(s, i)]) x = Some k"
  by (simp add: map_add_Some_iff)

lemma step_filed:
  assumes "filed w"
  shows "filed (step e w)"
proof -
  from assms have d: "distinct (map fst (users w))"
    and f: "\<And>x. x \<in> set (users w) \<Longrightarrow>
              uid (snd x) = fst x \<and> map_of (listeners w) (ws (snd x)) = Some (fst x)"
    by (auto simp: filed_def)
  have grow: "map_of (listeners (step e w)) x = Some k" if "map_of (listeners w) x = Some k" for x k
    using that by (simp add: step_listeners(1) map_of_listeners_grow del: step.simps)
  have sub: "set (users (step e w)) \<subseteq> set (users w)
      \<or> (\<exists>k s n. map_of (listeners w) s = Some k
            \<and> users (step e w) = Map_set k \<lparr>uid = k, uname = n, ws = s\<rparr> (users w))"
    unfolding step_users
    by (cases e) (auto simp: Map_delete_def split: option.splits jsval.splits)
  have keys: "distinct (map fst (users (step e w)))"
    unfolding step_users using d
    by (cases e)
      (auto simp: Map_delete_def Map_set_keys distinct_map_filter split: option.splits jsval.splits)
  have entries: "uid (snd x) = fst x \<and> map_of (listeners (step e w)) (ws (snd x)) = Some (fst x)"
    if x: "x \<in> set (users (step e w))" for x
  proof -
    from sub x have "x \<in> set (users w)
        \<or> (\<exists>k s n. map_of (listeners w) s = Some k \<and> x = (k, \<lparr>uid = k, uname = n, ws = s\<rparr>))"
      using set_Map_set by fastforce
    then show ?thesis
      using f grow by auto
  qed
  from keys entries show ?thesis
    unfolding filed_def by blast
qed

lemma reachable_filed: "filed (run evs (initial clock rnd))"
proof (rule run_invariant)
  show "filed (initial clock rnd)"
    by (simp add: filed_def initial_def)
qed (rule step_filed)

lemma filed_keyed: "filed w \<Longrightarrow> keyed w"
  by (simp add: filed_def keyed_def)

lemma filed_socketsDistinct:
  assumes "filed w"
  shows "socketsDistinct w"
proof -
  from assms have d: "distinct (map fst (users w))"
    and f: "\<And>x. x \<in> set (users w) \<Longrightarrow> map_of (listeners w) (ws (snd x)) = Some (fst x)"
    by (auto simp: filed_def)
  have "map fst (users w) = map (\<lambda>s. the (map_of (listeners w) s)) (map (ws \<circ> snd) (users w))"
    using f by (simp add: comp_def)
  with d have "distinct (map (\<lambda>s. the (map_of (listeners w) s)) (map (ws \<circ> snd) (users w)))"
    by simp
  then have "distinct (map (ws \<circ> snd) (users w))"
    by (simp only: distinct_map)
  then show ?thesis
    by (simp add: socketsDistinct_def Map_values_def)
qed

lemma reachable_keyed: "keyed (run evs (initial clock rnd))"
  by (rule filed_keyed) (rule reachable_filed)

lemma reachable_socketsDistinct: "socketsDistinct (run evs (initial clock rnd))"
  by (rule filed_socketsDistinct) (rule reachable_filed)

end
